theory Spec2Isabelle
  imports Complex_Main "HOL-Library.Finite_Map" "HOL-Library.Log_Nat"
begin

section \<open>Numbers\<close>

text \<open>
  The C++ type \<open>double\<close> is IEEE 754 binary64. A value is a finite number, positive or
  negative infinity, or NaN. The model works with the values, not the bit patterns: the
  two zeros are one value (the comparisons and the addition of the code do not tell
  them apart, and \<open>==\<close> holds between them) and there is one NaN.
\<close>

datatype fpval = Finite real | PosInf | NegInf | NotANumber

text \<open>Rounding a real to an integer, a tie going to the even neighbour.\<close>

definition rne :: "real \<Rightarrow> int" where
  "rne q =
     (let f = \<lfloor>q\<rfloor>; d = q - of_int f
      in if d < 1 / 2 then f else if 1 / 2 < d then f + 1 else if even f then f else f + 1)"

text \<open>
  Magnitudes are counted in units of the smallest subnormal number, \<open>2\<close> to the power
  \<open>-1074\<close>. A magnitude of \<open>y\<close> units keeps its 53 leading binary digits: with
  \<open>ulp_exp y\<close> digits too many, it is rounded to a multiple of \<open>2 ^ ulp_exp y\<close>. Below
  \<open>2 ^ 53\<close> units (the subnormal numbers and the first binades) every whole number of
  units is kept.
\<close>

definition ulp_exp :: "real \<Rightarrow> nat" where
  "ulp_exp y = nat (bitlen \<lfloor>y\<rfloor> - 53)"

definition round_units :: "real \<Rightarrow> int" where
  "round_units y = rne (y / 2 ^ ulp_exp y) * 2 ^ ulp_exp y"

text \<open>The number of units in 1, and the number of units in \<open>2 ^ 1024\<close>, where the range ends.\<close>

definition scale64 :: real where
  "scale64 = 2 ^ 1074"

definition huge64 :: int where
  "huge64 = 2 ^ 2098"

text \<open>
  Round to nearest, ties to even, of a real that is not negative: the rounded magnitude
  overflows to infinity when it reaches \<open>2 ^ 1024\<close>.
\<close>

definition round_mag :: "real \<Rightarrow> fpval" where
  "round_mag x =
     (let n = round_units (x * scale64)
      in if huge64 \<le> n then PosInf else Finite (of_int n / scale64))"

fun fneg :: "fpval \<Rightarrow> fpval" where
  "fneg (Finite x) = Finite (- x)"
| "fneg PosInf = NegInf"
| "fneg NegInf = PosInf"
| "fneg NotANumber = NotANumber"

definition round64 :: "real \<Rightarrow> fpval" where
  "round64 x = (if x < 0 then fneg (round_mag (- x)) else round_mag x)"

text \<open>The finite doubles are the reals that rounding leaves as they are.\<close>

definition is_b64 :: "real \<Rightarrow> bool" where
  "is_b64 x = (round64 x = Finite x)"

fun fp_valid :: "fpval \<Rightarrow> bool" where
  "fp_valid (Finite x) = is_b64 x"
| "fp_valid _ = True"

text \<open>
  Addition: NaN is absorbing, the two infinities of opposite sign add to NaN, an
  infinity absorbs every finite summand, and the exact sum of two finite numbers is
  rounded.
\<close>

fun fp_plus :: "fpval \<Rightarrow> fpval \<Rightarrow> fpval" where
  "fp_plus NotANumber _ = NotANumber"
| "fp_plus _ NotANumber = NotANumber"
| "fp_plus PosInf NegInf = NotANumber"
| "fp_plus NegInf PosInf = NotANumber"
| "fp_plus PosInf _ = PosInf"
| "fp_plus _ PosInf = PosInf"
| "fp_plus NegInf _ = NegInf"
| "fp_plus _ NegInf = NegInf"
| "fp_plus (Finite x) (Finite y) = round64 (x + y)"

text \<open>The comparisons \<open><\<close> and \<open><=\<close>: false as soon as one side is NaN.\<close>

fun fp_less :: "fpval \<Rightarrow> fpval \<Rightarrow> bool" where
  "fp_less NotANumber _ = False"
| "fp_less _ NotANumber = False"
| "fp_less _ NegInf = False"
| "fp_less NegInf _ = True"
| "fp_less PosInf _ = False"
| "fp_less _ PosInf = True"
| "fp_less (Finite x) (Finite y) = (x < y)"

fun fp_less_eq :: "fpval \<Rightarrow> fpval \<Rightarrow> bool" where
  "fp_less_eq NotANumber _ = False"
| "fp_less_eq _ NotANumber = False"
| "fp_less_eq NegInf _ = True"
| "fp_less_eq _ NegInf = False"
| "fp_less_eq _ PosInf = True"
| "fp_less_eq PosInf _ = False"
| "fp_less_eq (Finite x) (Finite y) = (x \<le> y)"

typedef double = "{v. fp_valid v}"
  by (rule exI [of _ NotANumber]) simp

text \<open>
  \<open>Fin x\<close> is the double nearest to the real \<open>x\<close>, as a literal of the source denotes
  it; \<open>PInf\<close> is \<open>std::numeric_limits<double>::infinity()\<close>.
\<close>

definition Fin :: "real \<Rightarrow> double" where
  "Fin x = Abs_double (round64 x)"

definition PInf :: double where
  "PInf = Abs_double PosInf"

definition NInf :: double where
  "NInf = Abs_double NegInf"

definition NaN :: double where
  "NaN = Abs_double NotANumber"

instantiation double :: "{zero, plus, ord}"
begin

definition zero_double :: double where
  "zero_double = Fin 0"

definition plus_double :: "double \<Rightarrow> double \<Rightarrow> double" where
  "plus_double a b = Abs_double (fp_plus (Rep_double a) (Rep_double b))"

definition less_eq_double :: "double \<Rightarrow> double \<Rightarrow> bool" where
  "less_eq_double a b = fp_less_eq (Rep_double a) (Rep_double b)"

definition less_double :: "double \<Rightarrow> double \<Rightarrow> bool" where
  "less_double a b = fp_less (Rep_double a) (Rep_double b)"

instance ..

end

instantiation double :: equal
begin

definition equal_double :: "double \<Rightarrow> double \<Rightarrow> bool" where
  "equal_double a b = (Rep_double a = Rep_double b)"

instance
  by standard (simp add: equal_double_def Rep_double_inject)

end

text \<open>The real number a finite double stands for (0 for the other values).\<close>

definition to_real :: "double \<Rightarrow> real" where
  "to_real d = (case Rep_double d of Finite x \<Rightarrow> x | _ \<Rightarrow> 0)"

section \<open>Graph.h, Graph.cpp\<close>

record Edge =
  destination :: string
  distance :: double

text \<open>
  The class \<open>Graph\<close> has the single private member \<open>adjList\<close>, an
  \<open>std::unordered_map\<close> from airport identifiers to vectors of edges: a finite map.
\<close>

record Graph =
  adjList :: "(string, Edge list) fmap"

text \<open>The default constructor: no airport.\<close>

definition empty_graph :: Graph where
  "empty_graph = \<lparr>adjList = fmempty\<rparr>"

definition addAirport :: "Graph \<Rightarrow> string \<Rightarrow> Graph" where
  "addAirport g k =
     (if fmlookup (adjList g) k = None then g\<lparr>adjList := fmupd k [] (adjList g)\<rparr> else g)"

text \<open>
  \<open>m[k].push_back(e)\<close>: \<open>operator[]\<close> of the unordered map first inserts an empty
  vector when the key is absent, then the edge is appended to the vector of the key.
\<close>

definition push_back_at :: "(string, Edge list) fmap \<Rightarrow> string \<Rightarrow> Edge \<Rightarrow> (string, Edge list) fmap" where
  "push_back_at m k e =
     fmupd k ((case fmlookup m k of None \<Rightarrow> [] | Some es \<Rightarrow> es) @ [e]) m"

definition addRoute :: "Graph \<Rightarrow> string \<Rightarrow> string \<Rightarrow> double \<Rightarrow> Graph" where
  "addRoute g source dest w =
     g\<lparr>adjList :=
         push_back_at
           (push_back_at (adjList g) source \<lparr>destination = dest, distance = w\<rparr>)
           dest \<lparr>destination = source, distance = w\<rparr>\<rparr>"

definition getRoutes :: "Graph \<Rightarrow> string \<Rightarrow> Edge list" where
  "getRoutes g k = (case fmlookup (adjList g) k of Some es \<Rightarrow> es | None \<Rightarrow> [])"

definition hasAirport :: "Graph \<Rightarrow> string \<Rightarrow> bool" where
  "hasAirport g k = (fmlookup (adjList g) k \<noteq> None)"

text \<open>A history of calls of the two mutating member functions, applied in order.\<close>

datatype GraphCall = AddAirport string | AddRoute string string double

fun apply_call :: "Graph \<Rightarrow> GraphCall \<Rightarrow> Graph" where
  "apply_call g (AddAirport k) = addAirport g k"
| "apply_call g (AddRoute a b w) = addRoute g a b w"

definition apply_calls :: "Graph \<Rightarrow> GraphCall list \<Rightarrow> Graph" where
  "apply_calls g cs = foldl apply_call g cs"

text \<open>The identifiers a call adds: its argument, or both endpoints of the route.\<close>

fun added_by :: "GraphCall \<Rightarrow> string list" where
  "added_by (AddAirport k) = [k]"
| "added_by (AddRoute a b w) = [a, b]"

section \<open>Dijkstra.h, Dijkstra.cpp\<close>

record PathResult =
  path :: "string list"
  totalDistance :: double

record QueueNode =
  airportId :: string
  distance :: double

text \<open>
  \<open>std::priority_queue<QueueNode, std::vector<QueueNode>, std::greater<>>\<close> is a
  min-queue on \<open>distance\<close>. The queue is modelled by the list of its entries:
  \<open>push\<close> adds an entry, \<open>top\<close> is an entry of least distance (the first such in the
  list: which of several entries of equal distance the library returns is not fixed by
  the C++ standard), \<open>pop\<close> removes that entry.
\<close>

definition pq_push :: "QueueNode \<Rightarrow> QueueNode list \<Rightarrow> QueueNode list" where
  "pq_push q qs = qs @ [q]"

fun pq_top :: "QueueNode \<Rightarrow> QueueNode list \<Rightarrow> QueueNode" where
  "pq_top q [] = q"
| "pq_top q (r # rs) = (if distance r < distance q then pq_top r rs else pq_top q rs)"

definition pq_pop :: "QueueNode \<Rightarrow> QueueNode list \<Rightarrow> QueueNode list" where
  "pq_pop q qs = remove1 q qs"

text \<open>The working state of one query: the queue and the two maps.\<close>

record dstate =
  pq :: "QueueNode list"
  distances :: "(string, double) fmap"
  previous :: "(string, string) fmap"

text \<open>
  Reading \<open>distances[k]\<close>: \<open>operator[]\<close> inserts the value-initialised \<open>0.0\<close> when the
  key is absent. The value read and the map after the read are returned.
\<close>

definition index_dist :: "(string, double) fmap \<Rightarrow> string \<Rightarrow> double \<times> (string, double) fmap" where
  "index_dist m k = (case fmlookup m k of Some v \<Rightarrow> (v, m) | None \<Rightarrow> (0, fmupd k 0 m))"

text \<open>The body of the loop over the routes of the current airport, for one edge.\<close>

definition relax :: "QueueNode \<Rightarrow> dstate \<Rightarrow> Edge \<Rightarrow> dstate" where
  "relax current st edge =
     (let newDist = distance current + Edge.distance edge;
          (d, ds) = index_dist (distances st) (destination edge)
      in if newDist < d
         then st\<lparr>distances := fmupd (destination edge) newDist ds,
                 previous := fmupd (destination edge) (airportId current) (previous st),
                 pq := pq_push \<lparr>airportId = destination edge, distance = newDist\<rparr> (pq st)\<rparr>
         else st\<lparr>distances := ds\<rparr>)"

text \<open>
  The main loop. \<open>None\<close> stands for a loop that never ends. The three exits of an
  iteration are the \<open>break\<close> at the target, the \<open>continue\<close> at a stale entry, and the
  end of the body after the routes of the current airport have been relaxed.
\<close>

partial_function (option) main_loop :: "Graph \<Rightarrow> string \<Rightarrow> dstate \<Rightarrow> dstate option" where [code]:
  "main_loop graph targetId st =
     (case pq st of
        [] \<Rightarrow> Some st
      | q # qs \<Rightarrow>
          let current = pq_top q qs;
              st1 = st\<lparr>pq := pq_pop current (pq st)\<rparr>
          in if airportId current = targetId then Some st1
             else let (d, ds) = index_dist (distances st1) (airportId current);
                      st2 = st1\<lparr>distances := ds\<rparr>
                  in if distance current > d then main_loop graph targetId st2
                     else main_loop graph targetId
                            (foldl (relax current) st2 (getRoutes graph (airportId current))))"

text \<open>
  The reconstruction loop: \<open>cur\<close> (the variable \<open>curr\<close> of the source) walks the
  predecessor links, each visited identifier is inserted at the front of the path.
  \<open>None\<close> stands for a walk that never ends.
\<close>

partial_function (option) reconstruct :: "(string, string) fmap \<Rightarrow> string \<Rightarrow> string list \<Rightarrow> string list option" where [code]:
  "reconstruct prev cur acc =
     (if cur \<noteq> [] \<and> fmlookup prev cur \<noteq> None
      then reconstruct prev (case fmlookup prev cur of Some p \<Rightarrow> p | None \<Rightarrow> []) (cur # acc)
      else Some acc)"

text \<open>
  The state before the main loop: every airport of the graph at distance infinity
  with the empty string as predecessor, then the source at distance 0 and queued.
\<close>

definition init_state :: "Graph \<Rightarrow> string \<Rightarrow> dstate" where
  "init_state graph sourceId =
     \<lparr>pq = pq_push \<lparr>airportId = sourceId, distance = 0\<rparr> [],
      distances = fmupd sourceId 0 (fmmap (\<lambda>_. PInf) (adjList graph)),
      previous = fmmap (\<lambda>_. []) (adjList graph)\<rparr>"

definition findShortestPath :: "Graph \<Rightarrow> string \<Rightarrow> string \<Rightarrow> PathResult option" where
  "findShortestPath graph sourceId targetId =
     (let result = \<lparr>path = [], totalDistance = 0\<rparr>
      in if \<not> hasAirport graph sourceId \<or> \<not> hasAirport graph targetId then Some result
         else case main_loop graph targetId (init_state graph sourceId) of
                None \<Rightarrow> None
              | Some st \<Rightarrow>
                  (case reconstruct (previous st) targetId [] of
                     None \<Rightarrow> None
                   | Some p \<Rightarrow>
                       Some \<lparr>path = p,
                             totalDistance =
                               (case fmlookup (distances st) targetId of
                                  Some d \<Rightarrow> d
                                | None \<Rightarrow> totalDistance result)\<rparr>))"

text \<open>The graph that \<open>main\<close> builds before it answers the query.\<close>

definition main_graph :: Graph where
  "main_graph =
     addRoute
       (addRoute
          (addAirport (addAirport (addAirport empty_graph ''JFK'') ''DFW'') ''ORD'')
          ''JFK'' ''ORD'' (Fin 800))
       ''ORD'' ''DFW'' (Fin 1650)"

section \<open>Specification vocabulary\<close>

text \<open>Every edge stored in the graph has a weight that is not negative.\<close>

definition nonneg_weights :: "Graph \<Rightarrow> bool" where
  "nonneg_weights g =
     (\<forall>k \<in> fset (fmdom (adjList g)). \<forall>e \<in> set (getRoutes g k). 0 \<le> Edge.distance e)"

text \<open>No airport of the graph has a route.\<close>

definition no_routes :: "Graph \<Rightarrow> bool" where
  "no_routes g = (\<forall>k \<in> fset (fmdom (adjList g)). getRoutes g k = [])"

text \<open>
  A path from \<open>u\<close> to \<open>t\<close> is the list of the edges it takes: each edge is stored in
  the adjacency list of the airport where the previous one arrived. Its weight
  \<open>path_weight\<close> is what the code computes along it: starting from 0, the weights of
  its edges are added one after the other, each sum a double addition.
  \<open>exact_weight\<close> is the sum of the weights as real numbers.
\<close>

fun is_path :: "Graph \<Rightarrow> string \<Rightarrow> Edge list \<Rightarrow> string \<Rightarrow> bool" where
  "is_path g u [] t = (u = t)"
| "is_path g u (e # es) t = (e \<in> set (getRoutes g u) \<and> is_path g (destination e) es t)"

definition weight_from :: "double \<Rightarrow> Edge list \<Rightarrow> double" where
  "weight_from c p = foldl (\<lambda>acc e. acc + Edge.distance e) c p"

definition path_weight :: "Edge list \<Rightarrow> double" where
  "path_weight p = weight_from 0 p"

definition exact_weight :: "Edge list \<Rightarrow> real" where
  "exact_weight p = sum_list (map (\<lambda>e. to_real (Edge.distance e)) p)"

text \<open>The graph of \<open>main\<close> with one more airport, which no route reaches.\<close>

definition main_graph_lax :: Graph where
  "main_graph_lax = addAirport main_graph ''LAX''"

text \<open>
  A graph with the routes S--A of weight \<open>2 ^ 53\<close> and A--T of weight 1: the sum of the
  two weights is not a double.
\<close>

definition rounding_graph :: Graph where
  "rounding_graph =
     addRoute (addRoute empty_graph ''S'' ''A'' (Fin 9007199254740992)) ''A'' ''T'' (Fin 1)"

section \<open>Vocabulary of the correctness proof\<close>

text \<open>
  \<open>rd st k\<close> is the value that reading \<open>distances[k]\<close> gives in state \<open>st\<close>. An
  airport is settled when its distance is finite and the queue holds no entry with
  exactly that distance for it; it is relaxed when no route out of it can improve the
  distance of its destination. \<open>prev_rel\<close> is the predecessor relation stored in
  \<open>previous\<close>, the empty string standing for "none".
\<close>

definition rd :: "dstate \<Rightarrow> string \<Rightarrow> double" where
  "rd st k = (case fmlookup (distances st) k of Some d \<Rightarrow> d | None \<Rightarrow> 0)"

definition settled :: "dstate \<Rightarrow> string \<Rightarrow> bool" where
  "settled st v = (rd st v < PInf \<and> \<lparr>airportId = v, distance = rd st v\<rparr> \<notin> set (pq st))"

definition prev_rel :: "(string, string) fmap \<Rightarrow> (string \<times> string) set" where
  "prev_rel pm = {(u, v). fmlookup pm v = Some u \<and> u \<noteq> []}"

definition relaxed :: "Graph \<Rightarrow> dstate \<Rightarrow> string \<Rightarrow> bool" where
  "relaxed g st v =
     (\<forall>e \<in> set (getRoutes g v). rd st (destination e) \<le> rd st v + Edge.distance e)"

definition entries_ok :: "Graph \<Rightarrow> dstate \<Rightarrow> bool" where
  "entries_ok g st =
     (\<forall>q \<in> set (pq st). 0 \<le> distance q \<and> distance q < PInf
         \<and> rd st (airportId q) \<le> distance q \<and> hasAirport g (airportId q))"

definition realizable :: "Graph \<Rightarrow> string \<Rightarrow> dstate \<Rightarrow> bool" where
  "realizable g s st =
     (\<forall>v. hasAirport g v \<and> rd st v < PInf \<longrightarrow>
          (\<exists>p. is_path g s p v \<and> path_weight p = rd st v))"

definition prev_ok :: "dstate \<Rightarrow> bool" where
  "prev_ok st = (\<forall>v u. fmlookup (previous st) v = Some u \<and> u \<noteq> [] \<longrightarrow> settled st u)"

text \<open>
  \<open>dinv\<close> is the invariant of the main loop at the head of an iteration, \<open>rinv\<close>
  the invariant of the loop over the routes of the current airport \<open>cur\<close>.
  \<open>unsettled\<close> is the first component of the termination measure, \<open>loop_post\<close>
  what holds of the state in which the main loop ends.
\<close>

definition base_inv :: "Graph \<Rightarrow> string \<Rightarrow> dstate \<Rightarrow> bool" where
  "base_inv g s st =
     (rd st s = 0
      \<and> entries_ok g st
      \<and> distinct (pq st)
      \<and> (\<forall>v. hasAirport g v \<longrightarrow> fmlookup (distances st) v \<noteq> None)
      \<and> (\<forall>v. \<not> hasAirport g v \<longrightarrow> rd st v = 0)
      \<and> realizable g s st
      \<and> prev_ok st
      \<and> wf (prev_rel (previous st))
      \<and> (\<forall>v. fmlookup (previous st) v \<noteq> None \<longrightarrow> hasAirport g v)
      \<and> (\<forall>v. 0 \<le> rd st v))"

definition dinv :: "Graph \<Rightarrow> string \<Rightarrow> dstate \<Rightarrow> bool" where
  "dinv g s st =
     (base_inv g s st
      \<and> (\<forall>v. settled st v \<longrightarrow> relaxed g st v)
      \<and> (\<forall>v. settled st v \<longrightarrow> (\<forall>q \<in> set (pq st). rd st v \<le> distance q)))"

definition rinv :: "Graph \<Rightarrow> string \<Rightarrow> QueueNode \<Rightarrow> dstate \<Rightarrow> bool" where
  "rinv g s cur st =
     (base_inv g s st
      \<and> rd st (airportId cur) = distance cur
      \<and> settled st (airportId cur)
      \<and> hasAirport g (airportId cur)
      \<and> 0 \<le> distance cur
      \<and> (\<forall>q \<in> set (pq st). distance cur \<le> distance q)
      \<and> (\<forall>v. settled st v \<longrightarrow> rd st v \<le> distance cur)
      \<and> (\<forall>v. settled st v \<and> v \<noteq> airportId cur \<longrightarrow> relaxed g st v))"

definition unsettled :: "Graph \<Rightarrow> dstate \<Rightarrow> string set" where
  "unsettled g st = {v \<in> fset (fmdom (adjList g)). \<not> settled st v}"

definition loop_post :: "Graph \<Rightarrow> string \<Rightarrow> string \<Rightarrow> dstate \<Rightarrow> bool" where
  "loop_post g s t st =
     ((\<forall>p. is_path g s p t \<longrightarrow> rd st t \<le> path_weight p)
      \<and> realizable g s st
      \<and> (\<forall>v. hasAirport g v \<longrightarrow> fmlookup (distances st) v \<noteq> None)
      \<and> wf (prev_rel (previous st))
      \<and> (\<forall>v. fmlookup (previous st) v \<noteq> None \<longrightarrow> hasAirport g v)
      \<and> (\<forall>v. 0 \<le> rd st v))"

section \<open>Facts about binary64 numbers\<close>

subsection \<open>Rounding\<close>

lemma rne_of_int: "rne (of_int i) = i"
  by (simp add: rne_def)

lemma rne_floor_cases: "rne q = \<lfloor>q\<rfloor> \<or> (rne q = \<lfloor>q\<rfloor> + 1 \<and> of_int \<lfloor>q\<rfloor> < q)"
  by (auto simp: rne_def Let_def)

lemma rne_ge: "of_int n \<le> q \<Longrightarrow> n \<le> rne q"
proof -
  assume "of_int n \<le> q"
  then have "n \<le> \<lfloor>q\<rfloor>" by (simp add: le_floor_iff)
  with rne_floor_cases [of q] show ?thesis by auto
qed

lemma rne_le: "q \<le> of_int n \<Longrightarrow> rne q \<le> n"
proof -
  assume q: "q \<le> of_int n"
  then have f: "\<lfloor>q\<rfloor> \<le> n" by (simp add: floor_le_iff)
  from rne_floor_cases [of q] show ?thesis
  proof
    assume "rne q = \<lfloor>q\<rfloor>" with f show ?thesis by simp
  next
    assume a: "rne q = \<lfloor>q\<rfloor> + 1 \<and> of_int \<lfloor>q\<rfloor> < q"
    with q have "of_int \<lfloor>q\<rfloor> < (of_int n :: real)" by linarith
    then have "\<lfloor>q\<rfloor> < n" by simp
    with a show ?thesis by simp
  qed
qed

lemma rne_mono: "q1 \<le> q2 \<Longrightarrow> rne q1 \<le> rne q2"
proof -
  assume le: "q1 \<le> q2"
  then have fl: "\<lfloor>q1\<rfloor> \<le> \<lfloor>q2\<rfloor>" by (rule floor_mono)
  show ?thesis
  proof (cases "\<lfloor>q1\<rfloor> = \<lfloor>q2\<rfloor>")
    case True
    with le show ?thesis by (auto simp: rne_def Let_def)
  next
    case False
    with fl have "\<lfloor>q1\<rfloor> + 1 \<le> \<lfloor>q2\<rfloor>" by simp
    moreover have "rne q1 \<le> \<lfloor>q1\<rfloor> + 1" using rne_floor_cases [of q1] by auto
    moreover have "\<lfloor>q2\<rfloor> \<le> rne q2" using rne_floor_cases [of q2] by auto
    ultimately show ?thesis by linarith
  qed
qed

lemma round_units_alt: "round_units y = rne (y / 2 ^ ulp_exp y) * 2 ^ ulp_exp y"
  by (simp add: round_units_def)

lemma bitlen_mono: "x \<le> y \<Longrightarrow> bitlen x \<le> bitlen y"
  by (simp add: bitlen_def floorlog_mono)

lemma ulp_exp_mono: "y1 \<le> y2 \<Longrightarrow> ulp_exp y1 \<le> ulp_exp y2"
  unfolding ulp_exp_def by (intro nat_mono diff_right_mono bitlen_mono floor_mono)

lemma below_binade: "0 \<le> y \<Longrightarrow> y < 2 ^ (53 + ulp_exp y)"
proof -
  assume y: "0 \<le> y"
  show ?thesis
  proof (cases "\<lfloor>y\<rfloor> > 0")
    case True
    from bitlen_bounds [OF True] have "\<lfloor>y\<rfloor> < 2 ^ nat (bitlen \<lfloor>y\<rfloor>)" by simp
    then have "\<lfloor>y\<rfloor> + 1 \<le> 2 ^ nat (bitlen \<lfloor>y\<rfloor>)" by simp
    then have "of_int (\<lfloor>y\<rfloor> + 1) \<le> (of_int (2 ^ nat (bitlen \<lfloor>y\<rfloor>)) :: real)"
      by (rule of_int_le_iff [THEN iffD2])
    then have "of_int \<lfloor>y\<rfloor> + 1 \<le> (2::real) ^ nat (bitlen \<lfloor>y\<rfloor>)" by simp
    moreover have "y < of_int \<lfloor>y\<rfloor> + 1" by linarith
    ultimately have "y < 2 ^ nat (bitlen \<lfloor>y\<rfloor>)" by linarith
    also have "(2::real) ^ nat (bitlen \<lfloor>y\<rfloor>) \<le> 2 ^ (53 + ulp_exp y)"
      by (rule power_increasing) (simp_all add: ulp_exp_def)
    finally show ?thesis .
  next
    case False
    then have "\<lfloor>y\<rfloor> < 1" by simp
    then have "y < 1" by (simp only: floor_less_iff of_int_1)
    also have "(1::real) \<le> 2 ^ (53 + ulp_exp y)" by simp
    finally show ?thesis .
  qed
qed

lemma above_binade: "0 < ulp_exp y \<Longrightarrow> 2 ^ (52 + ulp_exp y) \<le> y"
proof -
  assume k: "0 < ulp_exp y"
  then have b: "bitlen \<lfloor>y\<rfloor> > 53" by (simp add: ulp_exp_def)
  then have pos: "\<lfloor>y\<rfloor> > 0" using bitlen_eq_zero_iff [of "\<lfloor>y\<rfloor>"] by (cases "\<lfloor>y\<rfloor> > 0") auto
  from bitlen_bounds [OF pos] have "2 ^ nat (bitlen \<lfloor>y\<rfloor> - 1) \<le> \<lfloor>y\<rfloor>" by simp
  moreover have "nat (bitlen \<lfloor>y\<rfloor> - 1) = 52 + ulp_exp y" using b by (simp add: ulp_exp_def)
  ultimately have "2 ^ (52 + ulp_exp y) \<le> \<lfloor>y\<rfloor>" by simp
  then have "(of_int (2 ^ (52 + ulp_exp y)) :: real) \<le> y"
    by (simp only: le_floor_iff)
  then show ?thesis by simp
qed

lemma round_units_form:
  assumes "0 \<le> y"
  shows "\<exists>m. round_units y = m * 2 ^ ulp_exp y \<and> 0 \<le> m \<and> m \<le> 2 ^ 53"
proof -
  let ?k = "ulp_exp y"
  let ?m = "rne (y / 2 ^ ?k)"
  have "y / 2 ^ ?k < 2 ^ 53"
    using below_binade [OF assms] by (simp add: power_add divide_less_eq)
  then have "y / 2 ^ ?k \<le> of_int (2 ^ 53)" by simp
  then have "?m \<le> 2 ^ 53" by (rule rne_le)
  moreover have "of_int 0 \<le> y / 2 ^ ?k" using assms by simp
  then have "0 \<le> ?m" by (rule rne_ge)
  ultimately show ?thesis by (auto simp: round_units_alt)
qed

lemma round_units_exact:
  assumes "0 \<le> m" "m \<le> 2 ^ 53"
  shows "round_units (of_int (m * 2 ^ j)) = m * 2 ^ j"
proof (cases "m = 0")
  case True
  then show ?thesis by (simp add: round_units_alt rne_def)
next
  case False
  with assms have mpos: "0 < m" by simp
  define n where "n = m * 2 ^ j"
  define k where "k = ulp_exp (of_int n)"
  have kdef: "k = nat (bitlen n - 53)" by (simp add: k_def ulp_exp_def)
  have bl: "bitlen n = bitlen m + int j" unfolding n_def using mpos by simp
  have "\<exists>c. n = c * 2 ^ k"
  proof (cases "m < 2 ^ 53")
    case True
    then have "bitlen m \<le> 53" by (simp add: bitlen_le_iff_power)
    then have "k \<le> j" by (simp add: kdef bl)
    then have "(2::int) ^ j = 2 ^ (j - k) * 2 ^ k" by (simp add: power_add [symmetric])
    then have "n = (m * 2 ^ (j - k)) * 2 ^ k" by (simp add: n_def)
    then show ?thesis by blast
  next
    case False
    with assms have m: "m = 2 ^ 53" by simp
    have "bitlen 1 = 1" by (simp add: bitlen_alt_def)
    with m have "bitlen m = 54" using bitlen_pow2 [of 1 53] by simp
    then have "k = j + 1" by (simp add: kdef bl)
    note this
    have "(52::nat) + (j + 1) = 53 + j" by simp
    then have "(2::int) ^ 53 * 2 ^ j = 2 ^ 52 * 2 ^ (j + 1)"
      by (simp only: power_add [symmetric])
    with \<open>k = j + 1\<close> have "n = 2 ^ 52 * 2 ^ k" by (simp only: n_def m)
    then show ?thesis by blast
  qed
  then obtain c where c: "n = c * 2 ^ k" by blast
  then have "(of_int n :: real) / 2 ^ k = of_int c" by simp
  then have r: "rne (of_int n / 2 ^ k) = c" by (simp only: rne_of_int)
  have "round_units (of_int n) = rne (of_int n / 2 ^ k) * 2 ^ k"
    unfolding k_def by (rule round_units_alt)
  also have "\<dots> = c * 2 ^ k" by (simp only: r)
  also have "\<dots> = n" by (rule c [symmetric])
  finally show ?thesis by (simp only: n_def)
qed

lemma round_units_idem: "0 \<le> y \<Longrightarrow> round_units (of_int (round_units y)) = round_units y"
  using round_units_form [of y] round_units_exact by auto

lemma round_units_nonneg: "0 \<le> y \<Longrightarrow> 0 \<le> round_units y"
  using round_units_form [of y] by auto

lemma round_units_mono:
  assumes "0 \<le> y1" "y1 \<le> y2"
  shows "round_units y1 \<le> round_units y2"
proof -
  let ?k1 = "ulp_exp y1" and ?k2 = "ulp_exp y2"
  have k: "?k1 \<le> ?k2" using assms(2) by (rule ulp_exp_mono)
  show ?thesis
  proof (cases "?k1 = ?k2")
    case True
    have "y1 / 2 ^ ?k2 \<le> y2 / 2 ^ ?k2" using assms(2) by (simp add: divide_right_mono)
    then have "rne (y1 / 2 ^ ?k2) \<le> rne (y2 / 2 ^ ?k2)" by (rule rne_mono)
    then show ?thesis by (simp add: round_units_alt True)
  next
    case False
    with k have lt: "?k1 < ?k2" by simp
    from round_units_form [OF assms(1)] obtain m1
      where m1: "round_units y1 = m1 * 2 ^ ?k1" "m1 \<le> 2 ^ 53" by blast
    have "round_units y1 \<le> 2 ^ 53 * 2 ^ ?k1"
      using m1 by (simp add: mult_right_mono)
    also have "\<dots> = 2 ^ (53 + ?k1)" by (simp add: power_add)
    also have "\<dots> \<le> (2::int) ^ (52 + ?k2)" using lt by (intro power_increasing) simp_all
    also have "\<dots> \<le> round_units y2"
    proof -
      from lt have "0 < ?k2" by simp
      from above_binade [OF this] have "2 ^ 52 \<le> y2 / 2 ^ ?k2"
        by (simp add: power_add le_divide_eq)
      then have "of_int (2 ^ 52) \<le> y2 / 2 ^ ?k2" by simp
      then have "2 ^ 52 \<le> rne (y2 / 2 ^ ?k2)" by (rule rne_ge)
      then have "2 ^ 52 * 2 ^ ?k2 \<le> rne (y2 / 2 ^ ?k2) * 2 ^ ?k2"
        by (simp add: mult_right_mono)
      then show ?thesis by (simp add: round_units_alt power_add)
    qed
    finally show ?thesis .
  qed
qed

lemma round_units_zero: "round_units 0 = 0"
  by (simp add: round_units_alt rne_def)

lemma scale64_pos: "0 < scale64"
  by (simp add: scale64_def)

lemma round_mag_cases:
  assumes "0 \<le> x"
  shows "round_mag x = PosInf \<or> (\<exists>r. 0 \<le> r \<and> round_mag x = Finite r \<and> round_mag r = Finite r)"
proof -
  define n where "n = round_units (x * scale64)"
  have y: "0 \<le> x * scale64" using assms scale64_pos by simp
  have n0: "0 \<le> n" unfolding n_def using y by (rule round_units_nonneg)
  have idem: "round_units (of_int n) = n" unfolding n_def using y by (rule round_units_idem)
  show ?thesis
  proof (cases "huge64 \<le> n")
    case True
    then show ?thesis by (simp add: round_mag_def n_def [symmetric])
  next
    case False
    define r :: real where "r = of_int n / scale64"
    have "round_mag x = Finite r" using False by (simp add: round_mag_def n_def [symmetric] r_def)
    moreover have "0 \<le> r" using n0 scale64_pos by (simp add: r_def)
    moreover have "r * scale64 = of_int n" using scale64_pos by (simp add: r_def)
    then have "round_mag r = Finite r" using False idem by (simp add: round_mag_def r_def)
    ultimately show ?thesis by blast
  qed
qed

lemma huge64_pos: "0 < huge64"
  by (simp add: huge64_def)

lemma round_mag_zero: "round_mag 0 = Finite 0"
  using huge64_pos by (simp add: round_mag_def round_units_zero)

lemma round64_idem: "round64 x = Finite r \<Longrightarrow> round64 r = Finite r"
proof (cases "x < 0")
  case False
  assume a: "round64 x = Finite r"
  with False have "round_mag x = Finite r" by (simp add: round64_def)
  with round_mag_cases [of x] False have "0 \<le> r" "round_mag r = Finite r" by auto
  then show ?thesis by (simp add: round64_def)
next
  case True
  assume a: "round64 x = Finite r"
  with True have f: "fneg (round_mag (- x)) = Finite r" by (simp add: round64_def)
  from True round_mag_cases [of "- x"] consider "round_mag (- x) = PosInf"
    | r' where "0 \<le> r'" "round_mag (- x) = Finite r'" "round_mag r' = Finite r'" by auto
  then show ?thesis
  proof cases
    case 1
    with f show ?thesis by simp
  next
    case 2
    with f have r: "r = - r'" by simp
    show ?thesis
    proof (cases "r' = 0")
      case True
      with r show ?thesis by (simp add: round64_def round_mag_zero)
    next
      case False
      with 2 r show ?thesis by (simp add: round64_def)
    qed
  qed
qed

lemma fp_valid_round64: "fp_valid (round64 x)"
  by (cases "round64 x") (simp_all add: round64_idem is_b64_def)

lemma round_mag_mono:
  assumes "0 \<le> x" "x \<le> y"
  shows "fp_less_eq (round_mag x) (round_mag y)"
proof -
  have "round_units (x * scale64) \<le> round_units (y * scale64)"
    using assms scale64_pos by (intro round_units_mono) simp_all
  then show ?thesis
    using scale64_pos by (auto simp: round_mag_def Let_def divide_right_mono)
qed

lemma fp_valid_plus: "fp_valid a \<Longrightarrow> fp_valid b \<Longrightarrow> fp_valid (fp_plus a b)"
  by (cases a; cases b) (simp_all add: fp_valid_round64)

lemma Rep_Fin: "Rep_double (Fin x) = round64 x"
  by (simp add: Fin_def Abs_double_inverse fp_valid_round64)

lemma Rep_PInf: "Rep_double PInf = PosInf"
  by (simp add: PInf_def Abs_double_inverse)

lemma Rep_NInf: "Rep_double NInf = NegInf"
  by (simp add: NInf_def Abs_double_inverse)

lemma Rep_NaN: "Rep_double NaN = NotANumber"
  by (simp add: NaN_def Abs_double_inverse)

lemma Rep_zero: "Rep_double 0 = Finite 0"
  by (simp add: zero_double_def Rep_Fin round64_def round_mag_zero)

lemma Rep_valid: "fp_valid (Rep_double a)"
  using Rep_double [of a] by simp

lemma Rep_plus: "Rep_double (a + b) = fp_plus (Rep_double a) (Rep_double b)"
  by (simp add: plus_double_def Abs_double_inverse fp_valid_plus Rep_valid)

lemma nonneg_Rep:
  "0 \<le> d \<longleftrightarrow> Rep_double d = PosInf \<or> (\<exists>x. 0 \<le> x \<and> Rep_double d = Finite x)"
  by (cases "Rep_double d") (simp_all add: less_eq_double_def Rep_zero)

lemma double_le_trans [trans]: "(a::double) \<le> b \<Longrightarrow> b \<le> c \<Longrightarrow> a \<le> c"
  unfolding less_eq_double_def
  by (cases "Rep_double a"; cases "Rep_double b"; cases "Rep_double c") simp_all

lemma double_less_le_trans [trans]: "(a::double) < b \<Longrightarrow> b \<le> c \<Longrightarrow> a < c"
  unfolding less_eq_double_def less_double_def
  by (cases "Rep_double a"; cases "Rep_double b"; cases "Rep_double c") simp_all

lemma double_le_less_trans [trans]: "(a::double) \<le> b \<Longrightarrow> b < c \<Longrightarrow> a < c"
  unfolding less_eq_double_def less_double_def
  by (cases "Rep_double a"; cases "Rep_double b"; cases "Rep_double c") simp_all

lemma double_less_imp_le: "(a::double) < b \<Longrightarrow> a \<le> b"
  unfolding less_eq_double_def less_double_def
  by (cases "Rep_double a"; cases "Rep_double b") simp_all

lemma double_less_not_le: "(a::double) < b \<Longrightarrow> \<not> b \<le> a"
  unfolding less_eq_double_def less_double_def
  by (cases "Rep_double a"; cases "Rep_double b") simp_all

lemma double_antisym: "(a::double) \<le> b \<Longrightarrow> b \<le> a \<Longrightarrow> a = b"
  unfolding less_eq_double_def
  by (cases "Rep_double a"; cases "Rep_double b") (simp_all add: Rep_double_inject [symmetric])

lemma double_refl: "0 \<le> (a::double) \<Longrightarrow> a \<le> a"
  unfolding less_eq_double_def
  by (cases "Rep_double a") (simp_all add: Rep_zero)

lemma double_not_less: "0 \<le> (a::double) \<Longrightarrow> 0 \<le> b \<Longrightarrow> (\<not> a < b) = (b \<le> a)"
  unfolding less_eq_double_def less_double_def
  by (cases "Rep_double a"; cases "Rep_double b") (auto simp: Rep_zero)

lemma le_PInf: "0 \<le> a \<Longrightarrow> a \<le> PInf"
  unfolding less_eq_double_def
  by (cases "Rep_double a") (simp_all add: Rep_zero Rep_PInf)

lemma not_less_PInf: "0 \<le> a \<Longrightarrow> (\<not> a < PInf) = (a = PInf)"
  unfolding less_eq_double_def less_double_def
  by (cases "Rep_double a") (simp_all add: Rep_zero Rep_PInf Rep_double_inject [symmetric])

lemma PInf_le: "PInf \<le> a \<longleftrightarrow> a = PInf"
  unfolding less_eq_double_def
  by (cases "Rep_double a") (simp_all add: Rep_PInf Rep_double_inject [symmetric])

lemma zero_le_PInf: "0 \<le> PInf"
  by (simp add: less_eq_double_def Rep_zero Rep_PInf)

lemma zero_less_PInf: "0 < PInf"
  by (simp add: less_double_def Rep_zero Rep_PInf)

lemma zero_le_zero_double: "(0::double) \<le> 0"
  by (simp add: less_eq_double_def Rep_zero)

lemma not_PInf_less: "\<not> PInf < a"
  unfolding less_double_def by (cases "Rep_double a") (simp_all add: Rep_PInf)

lemma less_PInf_nonneg: "a < b \<Longrightarrow> 0 \<le> a \<Longrightarrow> a < PInf"
  unfolding less_eq_double_def less_double_def
  by (cases "Rep_double a"; cases "Rep_double b") (simp_all add: Rep_zero Rep_PInf)

lemma plus_cases_nonneg:
  assumes "0 \<le> a" "0 \<le> w"
  shows "Rep_double (a + w) = PosInf
       \<or> (\<exists>x y. 0 \<le> x \<and> 0 \<le> y \<and> Rep_double a = Finite x \<and> Rep_double w = Finite y
             \<and> round_mag x = Finite x \<and> Rep_double (a + w) = round_mag (x + y))"
proof -
  from assms consider "Rep_double a = PosInf" | "Rep_double w = PosInf"
    | x y where "0 \<le> x" "0 \<le> y" "Rep_double a = Finite x" "Rep_double w = Finite y"
    by (auto simp: nonneg_Rep)
  then show ?thesis
  proof cases
    case 1
    then show ?thesis using assms(2) by (auto simp: Rep_plus nonneg_Rep)
  next
    case 2
    then show ?thesis using assms(1) by (auto simp: Rep_plus nonneg_Rep)
  next
    case 3
    from Rep_valid [of a] 3 have "round64 x = Finite x" by (simp add: is_b64_def)
    with 3 have "round_mag x = Finite x" by (simp add: round64_def)
    with 3 show ?thesis by (simp add: Rep_plus round64_def)
  qed
qed

lemma Rep_PosInf_iff: "Rep_double a = PosInf \<longleftrightarrow> a = PInf"
  by (simp add: Rep_double_inject [symmetric] Rep_PInf)

lemma plus_increasing: "0 \<le> a \<Longrightarrow> 0 \<le> w \<Longrightarrow> a \<le> a + (w::double)"
proof -
  assume a: "0 \<le> a" and w: "0 \<le> w"
  from plus_cases_nonneg [OF a w] show ?thesis
  proof
    assume "Rep_double (a + w) = PosInf"
    then have "a + w = PInf" by (simp add: Rep_PosInf_iff)
    with a show ?thesis by (simp add: le_PInf)
  next
    assume "\<exists>x y. 0 \<le> x \<and> 0 \<le> y \<and> Rep_double a = Finite x \<and> Rep_double w = Finite y
             \<and> round_mag x = Finite x \<and> Rep_double (a + w) = round_mag (x + y)"
    then obtain x y where xy: "0 \<le> x" "0 \<le> y" "Rep_double a = Finite x" "round_mag x = Finite x"
      "Rep_double (a + w) = round_mag (x + y)" by blast
    have "fp_less_eq (round_mag x) (round_mag (x + y))"
      using xy(1,2) by (intro round_mag_mono) simp_all
    with xy show ?thesis by (simp add: less_eq_double_def)
  qed
qed

lemma plus_nonneg: "0 \<le> a \<Longrightarrow> 0 \<le> w \<Longrightarrow> 0 \<le> a + (w::double)"
  using plus_increasing double_le_trans by blast

lemma plus_right_mono:
  assumes a: "0 \<le> a" and ab: "a \<le> b" and w: "0 \<le> (w::double)"
  shows "a + w \<le> b + w"
proof -
  have b: "0 \<le> b" using a ab by (rule double_le_trans)
  from plus_cases_nonneg [OF b w] show ?thesis
  proof
    assume "Rep_double (b + w) = PosInf"
    then have "b + w = PInf" by (simp add: Rep_PosInf_iff)
    then show ?thesis using plus_nonneg [OF a w] by (simp add: le_PInf)
  next
    assume "\<exists>x y. 0 \<le> x \<and> 0 \<le> y \<and> Rep_double b = Finite x \<and> Rep_double w = Finite y
             \<and> round_mag x = Finite x \<and> Rep_double (b + w) = round_mag (x + y)"
    then obtain x y where xy: "0 \<le> x" "0 \<le> y" "Rep_double b = Finite x" "Rep_double w = Finite y"
      "Rep_double (b + w) = round_mag (x + y)" by blast
    from a have "Rep_double a = PosInf \<or> (\<exists>x'. 0 \<le> x' \<and> Rep_double a = Finite x')"
      by (simp add: nonneg_Rep)
    with ab xy(3) obtain x' where x': "Rep_double a = Finite x'" "0 \<le> x'" "x' \<le> x"
      by (auto simp: less_eq_double_def)
    have "Rep_double (a + w) = round_mag (x' + y)"
      using x' xy by (simp add: Rep_plus round64_def)
    moreover have "fp_less_eq (round_mag (x' + y)) (round_mag (x + y))"
      using x' xy by (intro round_mag_mono) simp_all
    ultimately show ?thesis using xy by (simp add: less_eq_double_def)
  qed
qed

lemma zero_plus: "0 + (w::double) = w"
proof -
  have "fp_plus (Finite 0) (Rep_double w) = Rep_double w"
    using Rep_valid [of w] by (cases "Rep_double w") (simp_all add: is_b64_def)
  then show ?thesis by (simp add: Rep_double_inject [symmetric] Rep_plus Rep_zero)
qed

lemma PInf_plus: "0 \<le> w \<Longrightarrow> PInf + w = PInf"
  by (auto simp: Rep_double_inject [symmetric] Rep_plus Rep_PInf nonneg_Rep)

lemma round_mag_of_int_gen:
  assumes sc: "scale64 = 2 ^ j" and hu: "huge64 = 2 ^ h" and jh: "53 + j < h"
    and n: "0 \<le> n" "n \<le> 2 ^ 53"
  shows "round_mag (of_int n) = Finite (of_int n)"
proof -
  have "of_int n * scale64 = of_int (n * 2 ^ j)"
    by (simp add: sc)
  then have u: "round_units (of_int n * scale64) = n * 2 ^ j"
    using round_units_exact [OF n, of j] by (simp only:)
  have "n * 2 ^ j \<le> 2 ^ 53 * (2::int) ^ j"
    using n(2) by (rule mult_right_mono) simp
  also have "\<dots> = 2 ^ (53 + j)" by (simp only: power_add)
  also have "\<dots> < (2::int) ^ h" using jh by (intro power_strict_increasing) simp_all
  finally have "\<not> huge64 \<le> n * 2 ^ j" by (simp add: hu)
  moreover have "of_int (n * 2 ^ j) / scale64 = (of_int n :: real)"
    by (simp add: sc)
  ultimately show ?thesis by (simp add: round_mag_def u)
qed

lemma round_mag_of_int:
  assumes "0 \<le> n" "n \<le> 2 ^ 53"
  shows "round_mag (of_int n) = Finite (of_int n)"
  using scale64_def huge64_def _ assms by (rule round_mag_of_int_gen) simp

lemma is_b64_of_int: "\<bar>n\<bar> \<le> 2 ^ 53 \<Longrightarrow> is_b64 (of_int n)"
proof (cases "n < 0")
  case False
  assume "\<bar>n\<bar> \<le> 2 ^ 53"
  with False show ?thesis
    using round_mag_of_int [of n] by (simp add: is_b64_def round64_def)
next
  case True
  assume "\<bar>n\<bar> \<le> 2 ^ 53"
  with True have "round_mag (of_int (- n)) = Finite (of_int (- n))"
    by (intro round_mag_of_int) simp_all
  with True show ?thesis by (simp add: is_b64_def round64_def)
qed

lemma is_b64_numeral: "numeral k \<le> (2::int) ^ 53 \<Longrightarrow> is_b64 (numeral k)"
  using is_b64_of_int [of "numeral k"] by simp

lemma is_b64_0: "is_b64 0"
  using is_b64_of_int [of 0] by simp

lemma is_b64_1: "is_b64 1"
  using is_b64_of_int [of 1] by simp

lemma Rep_Fin_exact: "is_b64 x \<Longrightarrow> Rep_double (Fin x) = Finite x"
  by (simp add: Rep_Fin is_b64_def)

lemma Fin_plus: "is_b64 a \<Longrightarrow> is_b64 b \<Longrightarrow> Fin a + Fin b = Fin (a + b)"
  by (simp add: Rep_double_inject [symmetric] Rep_plus Rep_Fin is_b64_def)

lemma Fin_less: "is_b64 a \<Longrightarrow> is_b64 b \<Longrightarrow> Fin a < Fin b \<longleftrightarrow> a < b"
  by (simp add: less_double_def Rep_Fin_exact)

lemma Fin_le: "is_b64 a \<Longrightarrow> is_b64 b \<Longrightarrow> Fin a \<le> Fin b \<longleftrightarrow> a \<le> b"
  by (simp add: less_eq_double_def Rep_Fin_exact)

lemma Fin_eq: "is_b64 a \<Longrightarrow> is_b64 b \<Longrightarrow> Fin a = Fin b \<longleftrightarrow> a = b"
  by (simp add: Rep_double_inject [symmetric] Rep_Fin_exact)

lemma Fin_less_PInf: "is_b64 a \<Longrightarrow> Fin a < PInf"
  by (simp add: less_double_def Rep_Fin_exact Rep_PInf)

lemma Fin_neq_PInf: "is_b64 a \<Longrightarrow> Fin a \<noteq> PInf" "is_b64 a \<Longrightarrow> PInf \<noteq> Fin a"
  by (simp_all add: Rep_double_inject [symmetric] Rep_Fin_exact Rep_PInf)

lemma to_real_Fin: "is_b64 a \<Longrightarrow> to_real (Fin a) = a"
  by (simp add: to_real_def Rep_Fin_exact)

lemmas double_eval =
  zero_double_def Fin_plus Fin_less Fin_le Fin_eq Fin_less_PInf Fin_neq_PInf not_PInf_less
  is_b64_numeral is_b64_0 is_b64_1 to_real_Fin


lemma bitlen_2_53_1: "bitlen 9007199254740993 = 54"
proof -
  show ?thesis using bitlen_twopow_add_eq [where w = 53 and b = 1] by simp
qed

lemma rne_half: "rne (9007199254740993 / 2) = 4503599627370496"
  by (simp add: rne_def Let_def)

lemma round_mag_tie_gen:
  assumes sc: "scale64 = 2 ^ j" and hu: "huge64 = 2 ^ h" and jh: "54 + j < h"
  shows "round_mag 9007199254740993 = Finite 9007199254740992"
proof -
  define N :: int where "N = 9007199254740993 * 2 ^ j"
  have y: "9007199254740993 * scale64 = of_int N" by (simp add: sc N_def)
  have "bitlen N = 54 + int j" unfolding N_def using bitlen_pow2 [of 9007199254740993 j]
    by (simp add: bitlen_2_53_1)
  then have k: "ulp_exp (of_int N) = j + 1" by (simp add: ulp_exp_def)
  have "(of_int N :: real) / 2 ^ (j + 1) = 9007199254740993 / 2" by (simp add: N_def)
  then have "rne (of_int N / 2 ^ (j + 1)) = 4503599627370496" by (simp only: rne_half)
  then have u: "round_units (of_int N) = 4503599627370496 * 2 ^ (j + 1)"
    by (simp only: round_units_alt k)
  have "(4503599627370496::int) * 2 ^ (j + 1) = 2 ^ 52 * 2 ^ (j + 1)" by simp
  also have "\<dots> = 2 ^ (52 + (j + 1))" by (simp only: power_add)
  also have "\<dots> < (2::int) ^ h" using jh by (intro power_strict_increasing) simp_all
  finally have "\<not> huge64 \<le> 4503599627370496 * 2 ^ (j + 1)" by (simp add: hu)
  moreover have "of_int (4503599627370496 * 2 ^ (j + 1)) / scale64 = (9007199254740992 :: real)"
    by (simp add: sc)
  ultimately show ?thesis by (simp only: round_mag_def y u Let_def if_False)
qed

lemma round64_above_2_53: "round64 9007199254740993 = Finite 9007199254740992"
proof -
  have "round_mag 9007199254740993 = Finite 9007199254740992"
    using scale64_def huge64_def by (rule round_mag_tie_gen) simp
  then show ?thesis by (simp add: round64_def)
qed

lemma Fin_above_2_53: "Fin 9007199254740993 = Fin 9007199254740992"
proof -
  have "is_b64 9007199254740992" by (simp add: is_b64_numeral)
  then have "round64 9007199254740992 = Finite 9007199254740992" by (simp add: is_b64_def)
  then show ?thesis by (simp add: Fin_def round64_above_2_53)
qed

lemma round_mag_scaled_gen:
  assumes sc: "scale64 = 2 ^ j" and hu: "huge64 = 2 ^ h" and jh: "53 + (i + j) < h"
    and m: "0 \<le> m" "m \<le> 2 ^ 53"
  shows "round_mag (of_int m * 2 ^ i) = Finite (of_int m * 2 ^ i)"
proof -
  have "of_int m * 2 ^ i * scale64 = of_int (m * 2 ^ (i + j))"
    by (simp add: sc power_add)
  then have u: "round_units (of_int m * 2 ^ i * scale64) = m * 2 ^ (i + j)"
    using round_units_exact [OF m, of "i + j"] by (simp only:)
  have "m * 2 ^ (i + j) \<le> 2 ^ 53 * (2::int) ^ (i + j)"
    using m(2) by (rule mult_right_mono) simp
  also have "\<dots> = 2 ^ (53 + (i + j))" by (simp only: power_add)
  also have "\<dots> < (2::int) ^ h" using jh by (intro power_strict_increasing) simp_all
  finally have "\<not> huge64 \<le> m * 2 ^ (i + j)" by (simp add: hu)
  moreover have "of_int (m * 2 ^ (i + j)) / scale64 = (of_int m * 2 ^ i :: real)"
    by (simp add: sc power_add)
  ultimately show ?thesis by (simp add: round_mag_def u)
qed

lemma is_b64_2_54: "is_b64 18014398509481984"
proof -
  have "round_mag (of_int 9007199254740992 * 2 ^ 1) = Finite (of_int 9007199254740992 * 2 ^ 1)"
    using scale64_def huge64_def by (rule round_mag_scaled_gen) simp_all
  then show ?thesis by (simp add: is_b64_def round64_def)
qed

subsection \<open>Executing the numbers\<close>

text \<open>
  The doubles are generated as an abstract type over their values, so that the search
  can be run on concrete graphs.
\<close>

lemma double_abstype [code abstype]: "Abs_double (Rep_double x) = x"
  by (rule Rep_double_inverse)

lemmas double_code [code abstract] = Rep_Fin Rep_PInf Rep_NInf Rep_NaN Rep_plus

subsection \<open>Evaluating concrete queries\<close>

lemmas graph_eval =
  main_graph_def main_graph_lax_def rounding_graph_def empty_graph_def addRoute_def
  addAirport_def push_back_at_def getRoutes_def hasAirport_def

lemmas search_eval =
  findShortestPath_def init_state_def main_loop.simps reconstruct.simps relax_def
  index_dist_def pq_push_def pq_pop_def Let_def

section \<open>The graph container\<close>

lemma getRoutes_addRoute:
  "getRoutes (addRoute g a b w) k =
     getRoutes g k @ (if k = a then [\<lparr>destination = b, distance = w\<rparr>] else [])
                   @ (if k = b then [\<lparr>destination = a, distance = w\<rparr>] else [])"
  by (simp add: getRoutes_def addRoute_def push_back_at_def split: option.splits)

lemma hasAirport_addAirport: "hasAirport (addAirport g k) k' \<longleftrightarrow> hasAirport g k' \<or> k' = k"
  by (auto simp: hasAirport_def addAirport_def)

lemma hasAirport_addRoute:
  "hasAirport (addRoute g a b w) k \<longleftrightarrow> hasAirport g k \<or> k = a \<or> k = b"
  by (auto simp: hasAirport_def addRoute_def push_back_at_def)

lemma hasAirport_apply_calls:
  "hasAirport (apply_calls g cs) k \<longleftrightarrow> hasAirport g k \<or> k \<in> set (concat (map added_by cs))"
  unfolding apply_calls_def
proof (induction cs arbitrary: g)
  case Nil
  show ?case by simp
next
  case (Cons c cs)
  show ?case by (cases c) (auto simp: Cons.IH hasAirport_addAirport hasAirport_addRoute)
qed

text \<open>
  C7. After any history of \<open>addAirport\<close> and \<open>addRoute\<close> calls on a graph,
  \<open>hasAirport\<close> holds of an identifier exactly when the graph had it before or one of
  the calls added it, as the argument of \<open>addAirport\<close> or as an endpoint of
  \<open>addRoute\<close>; on a freshly constructed graph, exactly when one of the calls added it.
\<close>

theorem hasAirport_iff_added:
  "(hasAirport (apply_calls g cs) k \<longleftrightarrow> hasAirport g k \<or> k \<in> set (concat (map added_by cs)))
   \<and> (hasAirport (apply_calls empty_graph cs) k \<longleftrightarrow> k \<in> set (concat (map added_by cs)))"
  by (simp add: hasAirport_apply_calls) (simp add: hasAirport_def empty_graph_def)

theorem hasAirport_iff_added_witness:
  "hasAirport (apply_calls empty_graph [AddAirport ''JFK'', AddRoute ''ORD'' ''DFW'' (Fin 1650)]) ''DFW''
   \<and> \<not> hasAirport (apply_calls empty_graph [AddAirport ''JFK'', AddRoute ''ORD'' ''DFW'' (Fin 1650)]) ''LAX''"
  using hasAirport_iff_added [of empty_graph "[AddAirport ''JFK'', AddRoute ''ORD'' ''DFW'' (Fin 1650)]" "''DFW''"]
    hasAirport_iff_added [of empty_graph "[AddAirport ''JFK'', AddRoute ''ORD'' ''DFW'' (Fin 1650)]" "''LAX''"]
  by (simp add: hasAirport_def empty_graph_def)

text \<open>
  C8. \<open>addAirport\<close> is idempotent: on an identifier the graph has, it returns the
  graph unchanged; on one it lacks, it adds the identifier with an empty edge list and
  changes nothing else; called twice in a row it gives the state of one call.
\<close>

theorem addAirport_idempotent:
  "(hasAirport g k \<longrightarrow> addAirport g k = g)
   \<and> (\<not> hasAirport g k \<longrightarrow> adjList (addAirport g k) = fmupd k [] (adjList g))
   \<and> addAirport (addAirport g k) k = addAirport g k"
  by (simp add: hasAirport_def addAirport_def)

theorem addAirport_idempotent_witness:
  "hasAirport main_graph ''JFK'' \<and> addAirport main_graph ''JFK'' = main_graph
   \<and> \<not> hasAirport main_graph ''LAX''
   \<and> adjList (addAirport main_graph ''LAX'') = fmupd ''LAX'' [] (adjList main_graph)"
proof -
  have h1: "hasAirport main_graph ''JFK''" by (simp add: graph_eval)
  have h2: "\<not> hasAirport main_graph ''LAX''" by (simp add: graph_eval)
  show ?thesis
    using h1 h2 addAirport_idempotent [of main_graph "''JFK''"]
      addAirport_idempotent [of main_graph "''LAX''"]
    by simp
qed

text \<open>
  C9. \<open>getRoutes\<close> returns the edge list stored for an identifier the graph has, and
  the empty list for one it lacks; it is a total function, no identifier makes it fail.
\<close>

theorem getRoutes_stored_or_empty:
  "(hasAirport g k \<longrightarrow> fmlookup (adjList g) k = Some (getRoutes g k))
   \<and> (\<not> hasAirport g k \<longrightarrow> getRoutes g k = [])"
  by (auto simp: hasAirport_def getRoutes_def)

theorem getRoutes_stored_or_empty_witness:
  "hasAirport main_graph ''DFW''
   \<and> fmlookup (adjList main_graph) ''DFW'' = Some (getRoutes main_graph ''DFW'')
   \<and> \<not> hasAirport main_graph ''LAX'' \<and> getRoutes main_graph ''LAX'' = []"
proof -
  have h1: "hasAirport main_graph ''DFW''" by (simp add: graph_eval)
  have h2: "\<not> hasAirport main_graph ''LAX''" by (simp add: graph_eval)
  show ?thesis
    using h1 h2 getRoutes_stored_or_empty [of main_graph "''DFW''"]
      getRoutes_stored_or_empty [of main_graph "''LAX''"]
    by simp
qed

section \<open>Degenerate queries\<close>

text \<open>
  C3. When the source or the target is not an airport of the graph,
  \<open>findShortestPath\<close> returns (it yields \<open>Some\<close> result, so it neither aborts nor
  runs forever) the result with the empty path and total distance 0.
\<close>

theorem findShortestPath_missing_endpoint:
  "\<not> hasAirport g s \<or> \<not> hasAirport g t \<Longrightarrow>
   findShortestPath g s t = Some \<lparr>path = [], totalDistance = 0\<rparr>"
  by (auto simp: findShortestPath_def)

theorem findShortestPath_missing_endpoint_witness:
  "\<not> hasAirport main_graph ''SFO''
   \<and> findShortestPath main_graph ''SFO'' ''ORD'' = Some \<lparr>path = [], totalDistance = 0\<rparr>"
proof -
  have h: "\<not> hasAirport main_graph ''SFO''" by (simp add: graph_eval)
  then have "\<not> hasAirport main_graph ''SFO'' \<or> \<not> hasAirport main_graph ''ORD''" by simp
  from findShortestPath_missing_endpoint [OF this] h show ?thesis by simp
qed

lemma main_loop_source_is_target:
  "main_loop g s (init_state g s) = Some ((init_state g s)\<lparr>pq := []\<rparr>)"
  by (subst main_loop.simps) (simp add: init_state_def pq_push_def pq_pop_def)

lemma reconstruct_source:
  assumes "hasAirport g s" "s \<noteq> []"
  shows "reconstruct (fmmap (\<lambda>_. []) (adjList g)) s [] = Some [s]"
proof -
  from assms obtain es where "fmlookup (adjList g) s = Some es"
    by (auto simp: hasAirport_def)
  then have "reconstruct (fmmap (\<lambda>_. []) (adjList g)) s [] =
             reconstruct (fmmap (\<lambda>_. []) (adjList g)) [] [s]"
    using assms(2) by (subst reconstruct.simps) simp
  also have "\<dots> = Some [s]"
    by (subst reconstruct.simps) simp
  finally show ?thesis .
qed

text \<open>
  C4, as the code has it. For an airport \<open>s\<close> of the graph whose identifier is not
  the empty string, \<open>findShortestPath g s s\<close> returns the path \<open>[s]\<close> with total
  distance 0. (The empty string is the code's mark for "no predecessor": the
  reconstruction loop stops at it.)
\<close>

theorem findShortestPath_self:
  assumes "hasAirport g s" "s \<noteq> []"
  shows "findShortestPath g s s = Some \<lparr>path = [s], totalDistance = 0\<rparr>"
  using assms reconstruct_source [OF assms]
  by (simp add: findShortestPath_def main_loop_source_is_target) (simp add: init_state_def)

theorem findShortestPath_self_witness:
  "hasAirport main_graph ''ORD'' \<and> ''ORD'' \<noteq> []
   \<and> findShortestPath main_graph ''ORD'' ''ORD'' = Some \<lparr>path = [''ORD''], totalDistance = 0\<rparr>"
proof -
  have h1: "hasAirport main_graph ''ORD''" by (simp add: graph_eval)
  have h2: "''ORD'' \<noteq> []" by simp
  show ?thesis using h1 h2 findShortestPath_self [OF h1 h2] by simp
qed

text \<open>
  C4 as stated fails for the airport whose identifier is the empty string: the graph
  has it, no weight is negative, and the returned path is empty instead of holding
  that identifier.
\<close>

theorem findShortestPath_self_counterexample:
  "hasAirport (addAirport empty_graph []) []
   \<and> nonneg_weights (addAirport empty_graph [])
   \<and> findShortestPath (addAirport empty_graph []) [] []
       = Some \<lparr>path = [], totalDistance = 0\<rparr>
   \<and> findShortestPath (addAirport empty_graph []) [] []
       \<noteq> Some \<lparr>path = [[]], totalDistance = 0\<rparr>"
  by (simp add: nonneg_weights_def graph_eval search_eval double_eval)

section \<open>The scenario of main\<close>

text \<open>
  C5. On the graph with airports JFK, DFW, ORD and routes JFK--ORD of weight 800 and
  ORD--DFW of weight 1650: from JFK to DFW the path is JFK, ORD, DFW with total distance
  2450; from JFK to JFK the path is JFK with total distance 0; from JFK to the unknown
  LAX the path is empty with total distance 0.
\<close>

theorem findShortestPath_main_scenario:
  "findShortestPath main_graph ''JFK'' ''DFW''
     = Some \<lparr>path = [''JFK'', ''ORD'', ''DFW''], totalDistance = Fin 2450\<rparr>
   \<and> findShortestPath main_graph ''JFK'' ''JFK''
     = Some \<lparr>path = [''JFK''], totalDistance = Fin 0\<rparr>
   \<and> findShortestPath main_graph ''JFK'' ''LAX''
     = Some \<lparr>path = [], totalDistance = Fin 0\<rparr>"
  by (simp add: graph_eval search_eval double_eval)

theorem findShortestPath_main_scenario_witness:
  "map_option totalDistance (findShortestPath main_graph ''JFK'' ''DFW'') = Some (Fin 2450)
   \<and> map_option path (findShortestPath main_graph ''JFK'' ''LAX'') = Some []"
  using findShortestPath_main_scenario by simp

section \<open>Correctness and termination of the search\<close>

subsection \<open>Queue and path facts\<close>

lemma double_less_irrefl: "\<not> (a::double) < a"
  unfolding less_double_def by (cases "Rep_double a") simp_all

lemma pq_top_in: "pq_top q qs \<in> set (q # qs)"
  by (induction qs arbitrary: q) auto

lemma pq_top_least_all:
  "\<forall>r \<in> set (q # qs). 0 \<le> distance r \<Longrightarrow>
   \<forall>r \<in> set (q # qs). distance (pq_top q qs) \<le> distance r"
proof (induction qs arbitrary: q)
  case Nil
  then show ?case by (simp add: double_refl)
next
  case (Cons a qs)
  from Cons.prems have nq: "0 \<le> distance q" and na: "0 \<le> distance a"
    and nqs: "\<forall>r \<in> set qs. 0 \<le> distance r" by simp_all
  show ?case
  proof (cases "distance a < distance q")
    case True
    from na nqs have "\<forall>r \<in> set (a # qs). 0 \<le> distance r" by simp
    from Cons.IH [OF this] have ih: "\<forall>r \<in> set (a # qs). distance (pq_top a qs) \<le> distance r" .
    then have "distance (pq_top a qs) \<le> distance a" by simp
    also have "distance a \<le> distance q" using True by (rule double_less_imp_le)
    finally have "distance (pq_top a qs) \<le> distance q" .
    with ih True show ?thesis by simp
  next
    case False
    from nq nqs have "\<forall>r \<in> set (q # qs). 0 \<le> distance r" by simp
    from Cons.IH [OF this] have ih: "\<forall>r \<in> set (q # qs). distance (pq_top q qs) \<le> distance r" .
    then have "distance (pq_top q qs) \<le> distance q" by simp
    also have "distance q \<le> distance a" using False na nq by (simp add: double_not_less)
    finally have "distance (pq_top q qs) \<le> distance a" .
    with ih False show ?thesis by simp
  qed
qed

lemma pq_top_least:
  "\<forall>r \<in> set (q # qs). 0 \<le> distance r \<Longrightarrow> r \<in> set (q # qs) \<Longrightarrow>
   distance (pq_top q qs) \<le> distance r"
  using pq_top_least_all by blast

lemma is_path_append: "is_path g u p v \<Longrightarrow> is_path g v p' t \<Longrightarrow> is_path g u (p @ p') t"
  by (induction p arbitrary: u) auto

lemma weight_from_simps:
  "weight_from c [] = c"
  "weight_from c (e # p) = weight_from (c + Edge.distance e) p"
  "weight_from c (p @ [e]) = weight_from c p + Edge.distance e"
  by (simp_all add: weight_from_def)

lemma edge_source_airport: "e \<in> set (getRoutes g v) \<Longrightarrow> hasAirport g v"
  by (cases "fmlookup (adjList g) v") (simp_all add: getRoutes_def hasAirport_def)

lemma edge_nonneg:
  assumes "nonneg_weights g" "e \<in> set (getRoutes g v)"
  shows "0 \<le> Edge.distance e"
proof -
  have "hasAirport g v" using assms(2) by (rule edge_source_airport)
  then have "v \<in> fset (fmdom (adjList g))"
    by (auto simp: hasAirport_def intro: fmdomI)
  with assms show ?thesis unfolding nonneg_weights_def by blast
qed

lemma weight_from_increasing:
  assumes nn: "nonneg_weights g"
  shows "is_path g v p t \<Longrightarrow> 0 \<le> c \<Longrightarrow> c \<le> weight_from c p"
proof (induction p arbitrary: v c)
  case Nil
  then show ?case by (simp add: weight_from_simps double_refl)
next
  case (Cons e p)
  from Cons.prems have e: "e \<in> set (getRoutes g v)" and rest: "is_path g (destination e) p t"
    by simp_all
  have w0: "0 \<le> Edge.distance e" using nn e by (rule edge_nonneg)
  have "c \<le> c + Edge.distance e" using Cons.prems(2) w0 by (rule plus_increasing)
  also have "c + Edge.distance e \<le> weight_from (c + Edge.distance e) p"
    using rest plus_nonneg [OF Cons.prems(2) w0] by (rule Cons.IH)
  finally show ?case by (simp add: weight_from_simps)
qed

subsection \<open>The lower bound and the initial state\<close>

lemma lower_bound_aux:
  assumes nn: "nonneg_weights g"
    and rel: "\<forall>v. settled st v \<longrightarrow> relaxed g st v"
    and low: "\<forall>q \<in> set (pq st). rd st u \<le> distance q"
    and pos: "\<forall>v. 0 \<le> rd st v"
  shows "is_path g v p u \<Longrightarrow> rd st v \<le> c \<Longrightarrow> rd st u \<le> weight_from c p"
proof (induction p arbitrary: v c)
  case Nil
  then show ?case by (simp add: weight_from_simps)
next
  case (Cons e p)
  from Cons.prems have e: "e \<in> set (getRoutes g v)" and rest: "is_path g (destination e) p u"
    by simp_all
  have w0: "0 \<le> Edge.distance e" using nn e by (rule edge_nonneg)
  have v0: "0 \<le> rd st v" using pos by simp
  have c0: "0 \<le> c" using v0 Cons.prems(2) by (rule double_le_trans)
  have up: "c \<le> weight_from c (e # p)"
    using nn Cons.prems(1) c0 by (rule weight_from_increasing)
  show ?case
  proof (cases "settled st v")
    case True
    with rel e have "rd st (destination e) \<le> rd st v + Edge.distance e"
      by (auto simp: relaxed_def)
    also have "rd st v + Edge.distance e \<le> c + Edge.distance e"
      using v0 Cons.prems(2) w0 by (rule plus_right_mono)
    finally have "rd st (destination e) \<le> c + Edge.distance e" .
    from Cons.IH [OF rest this] show ?thesis by (simp add: weight_from_simps)
  next
    case False
    then consider "rd st v = PInf" | "\<lparr>airportId = v, distance = rd st v\<rparr> \<in> set (pq st)"
      using v0 by (auto simp: settled_def not_less_PInf)
    then show ?thesis
    proof cases
      case 1
      have "rd st u \<le> PInf" using pos by (simp add: le_PInf)
      also have "PInf \<le> c" using 1 Cons.prems(2) by simp
      also note up
      finally show ?thesis .
    next
      case 2
      with low have "rd st u \<le> rd st v" by force
      also note Cons.prems(2)
      also note up
      finally show ?thesis .
    qed
  qed
qed

lemma lower_bound:
  assumes "nonneg_weights g" "dinv g s st"
    and "\<forall>q \<in> set (pq st). rd st u \<le> distance q"
    and "is_path g s p u"
  shows "rd st u \<le> path_weight p"
proof -
  from assms(2) have rel: "\<forall>v. settled st v \<longrightarrow> relaxed g st v" and s0: "rd st s = 0"
    and pos: "\<forall>v. 0 \<le> rd st v"
    by (simp_all add: dinv_def base_inv_def)
  have "rd st s \<le> 0" by (simp add: s0 zero_le_zero_double)
  from lower_bound_aux [OF assms(1) rel assms(3) pos assms(4) this]
  show ?thesis by (simp add: path_weight_def)
qed

lemma rd_init:
  "rd (init_state g s) v = (if v = s then 0 else if hasAirport g v then PInf else 0)"
  by (cases "fmlookup (adjList g) v") (simp_all add: rd_def init_state_def hasAirport_def)

lemma pq_init: "pq (init_state g s) = [\<lparr>airportId = s, distance = 0\<rparr>]"
  by (simp add: init_state_def pq_push_def)

lemma settled_init: "settled (init_state g s) v \<longleftrightarrow> \<not> hasAirport g v \<and> v \<noteq> s"
  by (simp add: settled_def rd_init pq_init not_PInf_less zero_less_PInf)

lemma prev_rel_init: "prev_rel (previous (init_state g s)) = {}"
  by (auto simp: prev_rel_def init_state_def)

lemma previous_init:
  "fmlookup (previous (init_state g s)) v = (if hasAirport g v then Some [] else None)"
  by (cases "fmlookup (adjList g) v") (simp_all add: init_state_def hasAirport_def)

lemma distances_init_dom:
  "hasAirport g v \<Longrightarrow> fmlookup (distances (init_state g s)) v \<noteq> None"
  by (simp add: init_state_def hasAirport_def)

lemma getRoutes_no_airport: "\<not> hasAirport g v \<Longrightarrow> getRoutes g v = []"
  by (simp add: getRoutes_def hasAirport_def)

lemma realizable_init: "realizable g s (init_state g s)"
  unfolding realizable_def
proof (intro allI impI)
  fix v assume "hasAirport g v \<and> rd (init_state g s) v < PInf"
  then have "v = s" by (auto simp: rd_init not_PInf_less split: if_splits)
  then have "is_path g s [] v \<and> path_weight [] = rd (init_state g s) v"
    by (simp add: rd_init path_weight_def weight_from_simps)
  then show "\<exists>p. is_path g s p v \<and> path_weight p = rd (init_state g s) v" by blast
qed

lemma base_inv_init:
  assumes "hasAirport g s"
  shows "base_inv g s (init_state g s)"
  unfolding base_inv_def
  using assms realizable_init [of g s]
  by (simp add: rd_init pq_init prev_rel_init previous_init distances_init_dom
      entries_ok_def prev_ok_def zero_le_zero_double zero_less_PInf zero_le_PInf)

lemma dinv_init:
  assumes "hasAirport g s"
  shows "dinv g s (init_state g s)"
  unfolding dinv_def
  using base_inv_init [OF assms]
  by (auto simp: settled_init relaxed_def getRoutes_no_airport rd_init pq_init
      zero_le_zero_double)

subsection \<open>Relaxing one route\<close>

lemma relax_keep:
  assumes "\<not> distance cur + Edge.distance e < rd st (destination e)"
  shows "rd (relax cur st e) v = rd st v"
    and "pq (relax cur st e) = pq st"
    and "previous (relax cur st e) = previous st"
    and "fmlookup (distances st) v \<noteq> None \<Longrightarrow> fmlookup (distances (relax cur st e)) v \<noteq> None"
  using assms
  by (auto simp: relax_def index_dist_def rd_def Let_def split: option.splits)

lemma relax_update:
  assumes "distance cur + Edge.distance e < rd st (destination e)"
  shows "rd (relax cur st e) v =
           (if v = destination e then distance cur + Edge.distance e else rd st v)"
    and "pq (relax cur st e) =
           pq st @ [\<lparr>airportId = destination e, distance = distance cur + Edge.distance e\<rparr>]"
    and "previous (relax cur st e) = fmupd (destination e) (airportId cur) (previous st)"
    and "fmlookup (distances st) v \<noteq> None \<Longrightarrow> fmlookup (distances (relax cur st e)) v \<noteq> None"
  using assms
  by (auto simp: relax_def index_dist_def rd_def Let_def pq_push_def split: option.splits)

lemma settled_cong:
  "(\<And>v. rd st' v = rd st v) \<Longrightarrow> pq st' = pq st \<Longrightarrow> settled st' v = settled st v"
  by (simp add: settled_def)

lemma relaxed_cong:
  "(\<And>v. rd st' v = rd st v) \<Longrightarrow> relaxed g st' v = relaxed g st v"
  by (simp add: relaxed_def)

lemma entries_ok_cong:
  "(\<And>v. rd st' v = rd st v) \<Longrightarrow> pq st' = pq st \<Longrightarrow> entries_ok g st' = entries_ok g st"
  by (simp add: entries_ok_def)

lemma realizable_cong:
  "(\<And>v. rd st' v = rd st v) \<Longrightarrow> realizable g s st' = realizable g s st"
  by (simp add: realizable_def)

lemma prev_ok_cong:
  "(\<And>v. rd st' v = rd st v) \<Longrightarrow> pq st' = pq st \<Longrightarrow> previous st' = previous st \<Longrightarrow>
   prev_ok st' = prev_ok st"
  by (simp add: prev_ok_def settled_def)

lemma rinv_relax_keep:
  assumes "rinv g s cur st" "\<not> distance cur + Edge.distance e < rd st (destination e)"
  shows "rinv g s cur (relax cur st e)"
proof -
  note k = relax_keep [OF assms(2)]
  have c: "\<And>v. settled (relax cur st e) v = settled st v"
    by (rule settled_cong) (simp_all add: k)
  have r: "\<And>v. relaxed g (relax cur st e) v = relaxed g st v"
    by (rule relaxed_cong) (simp add: k)
  have e: "entries_ok g (relax cur st e) = entries_ok g st"
    by (rule entries_ok_cong) (simp_all add: k)
  have z: "realizable g s (relax cur st e) = realizable g s st"
    by (rule realizable_cong) (simp add: k)
  have p: "prev_ok (relax cur st e) = prev_ok st"
    by (rule prev_ok_cong) (simp_all add: k)
  from assms(1) show ?thesis
    unfolding rinv_def base_inv_def by (simp add: k c r e z p)
qed

lemma wf_prev_rel_update:
  assumes "wf (prev_rel pm)" "x \<noteq> u" "\<And>z. fmlookup pm z \<noteq> Some x \<or> x = []"
  shows "wf (prev_rel (fmupd x u pm))"
proof -
  let ?R0 = "{(a, b). (a, b) \<in> prev_rel pm \<and> b \<noteq> x}"
  have sub: "prev_rel (fmupd x u pm) \<subseteq> insert (u, x) ?R0"
    by (auto simp: prev_rel_def split: if_splits)
  have "wf ?R0" using assms(1) by (rule wf_subset) auto
  moreover have "(x, u) \<notin> ?R0\<^sup>*"
  proof
    assume "(x, u) \<in> ?R0\<^sup>*"
    then show False
    proof (cases rule: converse_rtranclE)
      case base
      with assms(2) show False by simp
    next
      case (step z)
      then have "fmlookup pm z = Some x \<and> x \<noteq> []" by (simp add: prev_rel_def)
      with assms(3) [of z] show False by simp
    qed
  qed
  ultimately have "wf (insert (u, x) ?R0)" by (simp add: wf_insert)
  then show ?thesis using sub by (rule wf_subset)
qed

lemma rinv_relax_update:
  assumes inv: "rinv g s cur st" and nn: "nonneg_weights g"
    and e: "e \<in> set (getRoutes g (airportId cur))"
    and lt: "distance cur + Edge.distance e < rd st (destination e)"
  shows "rinv g s cur (relax cur st e)"
    and "\<And>v. settled (relax cur st e) v = settled st v"
    and "\<And>v. rd (relax cur st e) v \<le> rd st v"
    and "rd (relax cur st e) (destination e) \<le> distance cur + Edge.distance e"
proof -
  define u d x w nd st' where "u = airportId cur" and "d = distance cur"
    and "x = destination e" and "w = Edge.distance e" and "nd = distance cur + Edge.distance e"
    and "st' = relax cur st e"
  note defs = u_def d_def x_def w_def nd_def st'_def
  from inv have base: "base_inv g s st" and rdu: "rd st u = d" and su: "settled st u"
    and au: "hasAirport g u" and d0: "0 \<le> d"
    and low: "\<forall>q \<in> set (pq st). d \<le> distance q"
    and sle: "\<forall>v. settled st v \<longrightarrow> rd st v \<le> d"
    and srel: "\<forall>v. settled st v \<and> v \<noteq> u \<longrightarrow> relaxed g st v"
    by (simp_all add: rinv_def defs)
  from base have s0: "rd st s = 0" and ent: "entries_ok g st" and dist: "distinct (pq st)"
    and dom: "\<forall>v. hasAirport g v \<longrightarrow> fmlookup (distances st) v \<noteq> None"
    and na: "\<forall>v. \<not> hasAirport g v \<longrightarrow> rd st v = 0"
    and real: "realizable g s st" and pok: "prev_ok st" and wfp: "wf (prev_rel (previous st))"
    and keys: "\<forall>v. fmlookup (previous st) v \<noteq> None \<longrightarrow> hasAirport g v"
    and pos: "\<forall>v. 0 \<le> rd st v"
    by (simp_all add: base_inv_def)
  have lt': "nd < rd st x" using lt by (simp add: defs)
  have w0: "0 \<le> w" using nn e unfolding w_def by (rule edge_nonneg)
  have d_le: "d \<le> nd" unfolding nd_def d_def w_def using d0 w0
    by (simp add: defs plus_increasing)
  have nd0: "0 \<le> nd" using d0 d_le by (rule double_le_trans)
  have ndfin: "nd < PInf" using lt' nd0 by (rule less_PInf_nonneg)
  have not_below: "\<not> nd < 0" using nd0 by (blast dest: double_less_not_le)
  have x_air: "hasAirport g x"
  proof (rule ccontr)
    assume "\<not> hasAirport g x"
    with na have "rd st x = 0" by simp
    with lt' not_below show False by simp
  qed
  have x_ns: "\<not> settled st x"
  proof
    assume "settled st x"
    with sle have "rd st x \<le> d" by simp
    also note d_le
    finally have "rd st x \<le> nd" .
    with lt' show False by (blast dest: double_less_not_le)
  qed
  have x_ne_u: "x \<noteq> u" using su x_ns by auto
  have x_ne_s: "x \<noteq> s" using s0 lt' not_below by auto
  have rd': "\<And>v. rd st' v = (if v = x then nd else rd st v)"
    using relax_update(1) [OF lt] by (simp add: defs)
  have pq': "pq st' = pq st @ [\<lparr>airportId = x, distance = nd\<rparr>]"
    using relax_update(2) [OF lt] by (simp add: defs)
  have prev': "previous st' = fmupd x u (previous st)"
    using relax_update(3) [OF lt] by (simp add: defs)
  have dom': "\<forall>v. hasAirport g v \<longrightarrow> fmlookup (distances st') v \<noteq> None"
    using relax_update(4) [OF lt] dom by (simp add: defs)
  have rd_le: "\<And>v. rd st' v \<le> rd st v"
    using lt' pos by (simp add: rd' double_less_imp_le double_refl)
  have set': "\<And>v. settled st' v = settled st v"
  proof -
    fix v show "settled st' v = settled st v"
    proof (cases "v = x")
      case True
      then show ?thesis using x_ns by (simp add: settled_def rd' pq')
    next
      case False
      then show ?thesis by (simp add: settled_def rd' pq')
    qed
  qed
  have new_fresh: "\<lparr>airportId = x, distance = nd\<rparr> \<notin> set (pq st)"
  proof
    assume "\<lparr>airportId = x, distance = nd\<rparr> \<in> set (pq st)"
    with ent have "rd st x \<le> nd" unfolding entries_ok_def by fastforce
    with lt' show False by (blast dest: double_less_not_le)
  qed
  have ent': "entries_ok g st'"
    unfolding entries_ok_def
  proof
    fix q assume "q \<in> set (pq st')"
    then consider "q \<in> set (pq st)" | "q = \<lparr>airportId = x, distance = nd\<rparr>"
      by (auto simp: pq')
    then show "0 \<le> distance q \<and> distance q < PInf
         \<and> rd st' (airportId q) \<le> distance q \<and> hasAirport g (airportId q)"
    proof cases
      case 1
      with ent have "0 \<le> distance q \<and> distance q < PInf
         \<and> rd st (airportId q) \<le> distance q \<and> hasAirport g (airportId q)"
        by (simp add: entries_ok_def)
      with rd_le [of "airportId q"] show ?thesis by (blast intro: double_le_trans)
    next
      case 2
      then show ?thesis using nd0 ndfin x_air by (simp add: rd' double_refl)
    qed
  qed
  have real': "realizable g s st'"
    unfolding realizable_def
  proof (intro allI impI)
    fix v assume v: "hasAirport g v \<and> rd st' v < PInf"
    show "\<exists>p. is_path g s p v \<and> path_weight p = rd st' v"
    proof (cases "v = x")
      case True
      from su rdu have "rd st u < PInf" by (simp add: settled_def)
      with real au obtain p where p: "is_path g s p u" "path_weight p = rd st u"
        unfolding realizable_def by blast
      have "is_path g u [e] x" using e by (simp add: defs)
      with p(1) have "is_path g s (p @ [e]) x" by (rule is_path_append)
      moreover have "path_weight (p @ [e]) = nd"
        using p(2) rdu by (simp add: defs path_weight_def weight_from_simps)
      ultimately show ?thesis using True by (auto simp: rd')
    next
      case False
      with v real show ?thesis unfolding realizable_def by (simp add: rd')
    qed
  qed
  have pok': "prev_ok st'"
    unfolding prev_ok_def
  proof (intro allI impI)
    fix v a assume "fmlookup (previous st') v = Some a \<and> a \<noteq> []"
    then have "a = u \<or> (fmlookup (previous st) v = Some a \<and> a \<noteq> [])"
      by (auto simp: prev' split: if_splits)
    then have "settled st a" using su pok unfolding prev_ok_def by blast
    then show "settled st' a" by (simp add: set')
  qed
  have wf': "wf (prev_rel (previous st'))"
    unfolding prev'
  proof (rule wf_prev_rel_update [OF wfp x_ne_u])
    fix z show "fmlookup (previous st) z \<noteq> Some x \<or> x = []"
      using pok x_ns unfolding prev_ok_def by blast
  qed
  have keys': "\<forall>v. fmlookup (previous st') v \<noteq> None \<longrightarrow> hasAirport g v"
    using keys x_air by (simp add: prev')
  have pos': "\<forall>v. 0 \<le> rd st' v"
    using pos nd0 by (simp add: rd')
  have base': "base_inv g s st'"
    unfolding base_inv_def
    using x_ne_s s0 ent' dist new_fresh dom' na x_air real' pok' wf' keys' pos'
    by (auto simp: rd' pq')
  have rel': "\<forall>v. settled st' v \<and> v \<noteq> u \<longrightarrow> relaxed g st' v"
  proof (intro allI impI)
    fix v assume v: "settled st' v \<and> v \<noteq> u"
    then have sv: "settled st v" and "v \<noteq> u" by (simp_all add: set')
    with srel have r: "relaxed g st v" by simp
    from sv x_ns have "v \<noteq> x" by auto
    then have "rd st' v = rd st v" by (simp add: rd')
    then show "relaxed g st' v"
      using r rd_le unfolding relaxed_def by (metis double_le_trans)
  qed
  have "rinv g s cur st'"
    unfolding rinv_def
    using base' rdu su au d0 low sle rel' x_ne_u x_ns d_le
    by (auto simp: set' rd' pq' defs [symmetric])
  then show "rinv g s cur (relax cur st e)" by (simp add: defs)
  show "\<And>v. settled (relax cur st e) v = settled st v" using set' by (simp add: defs)
  show "\<And>v. rd (relax cur st e) v \<le> rd st v" using rd_le by (simp add: defs)
  show "rd (relax cur st e) (destination e) \<le> distance cur + Edge.distance e"
    using rd' [of x] nd0 by (simp add: defs double_refl)
qed

subsection \<open>The loop over the routes\<close>

lemma rinv_relax:
  assumes "rinv g s cur st" "nonneg_weights g" "e \<in> set (getRoutes g (airportId cur))"
  shows "rinv g s cur (relax cur st e)
    \<and> (\<forall>v. settled (relax cur st e) v = settled st v)
    \<and> (\<forall>v. rd (relax cur st e) v \<le> rd st v)
    \<and> rd (relax cur st e) (destination e) \<le> distance cur + Edge.distance e"
proof (cases "distance cur + Edge.distance e < rd st (destination e)")
  case True
  from rinv_relax_update [OF assms True] show ?thesis by blast
next
  case False
  note k = relax_keep [OF False]
  have "\<And>v. settled (relax cur st e) v = settled st v"
    by (rule settled_cong) (simp_all add: k)
  moreover from assms(1) have pos: "\<forall>v. 0 \<le> rd st v" and d0: "0 \<le> distance cur"
    by (simp_all add: rinv_def base_inv_def)
  have "0 \<le> Edge.distance e" using assms(2,3) by (rule edge_nonneg)
  with d0 have "0 \<le> distance cur + Edge.distance e" by (rule plus_nonneg)
  with False pos have "rd st (destination e) \<le> distance cur + Edge.distance e"
    by (simp add: double_not_less)
  moreover have "\<forall>v. rd st v \<le> rd st v" using pos by (simp add: double_refl)
  ultimately show ?thesis
    using rinv_relax_keep [OF assms(1) False] by (simp add: k)
qed

lemma rinv_foldl_relax:
  assumes nn: "nonneg_weights g"
  shows "set es \<subseteq> set (getRoutes g (airportId cur)) \<Longrightarrow> rinv g s cur st \<Longrightarrow>
    rinv g s cur (foldl (relax cur) st es)
    \<and> (\<forall>v. settled (foldl (relax cur) st es) v = settled st v)
    \<and> (\<forall>v. rd (foldl (relax cur) st es) v \<le> rd st v)
    \<and> (\<forall>e \<in> set es. rd (foldl (relax cur) st es) (destination e)
            \<le> distance cur + Edge.distance e)"
proof (induction es arbitrary: st)
  case Nil
  then have "\<forall>v. 0 \<le> rd st v" by (simp add: rinv_def base_inv_def)
  with Nil show ?case by (simp add: double_refl)
next
  case (Cons e es)
  let ?st1 = "relax cur st e"
  let ?st2 = "foldl (relax cur) ?st1 es"
  from Cons.prems have e: "e \<in> set (getRoutes g (airportId cur))"
    and es: "set es \<subseteq> set (getRoutes g (airportId cur))" by simp_all
  from rinv_relax [OF Cons.prems(2) nn e]
  have 1: "rinv g s cur ?st1" and 2: "\<forall>v. settled ?st1 v = settled st v"
    and 3: "\<forall>v. rd ?st1 v \<le> rd st v"
    and 4: "rd ?st1 (destination e) \<le> distance cur + Edge.distance e" by blast+
  from Cons.IH [OF es 1]
  have 5: "rinv g s cur ?st2" and 6: "\<forall>v. settled ?st2 v = settled ?st1 v"
    and 7: "\<forall>v. rd ?st2 v \<le> rd ?st1 v"
    and 8: "\<forall>e \<in> set es. rd ?st2 (destination e) \<le> distance cur + Edge.distance e"
    by blast+
  have "rd ?st2 (destination e) \<le> distance cur + Edge.distance e"
    using 7 4 by (blast intro: double_le_trans)
  moreover have "\<forall>v. rd ?st2 v \<le> rd st v"
    using 7 3 by (blast intro: double_le_trans)
  ultimately show ?case using 5 6 2 8 by simp
qed

lemma rinv_close:
  assumes "rinv g s cur st"
    and "\<forall>e \<in> set (getRoutes g (airportId cur)).
           rd st (destination e) \<le> distance cur + Edge.distance e"
  shows "dinv g s st"
proof -
  from assms(1) have base: "base_inv g s st" and rdu: "rd st (airportId cur) = distance cur"
    and low: "\<forall>q \<in> set (pq st). distance cur \<le> distance q"
    and sle: "\<forall>v. settled st v \<longrightarrow> rd st v \<le> distance cur"
    and srel: "\<forall>v. settled st v \<and> v \<noteq> airportId cur \<longrightarrow> relaxed g st v"
    by (simp_all add: rinv_def)
  have "relaxed g st (airportId cur)"
    using assms(2) rdu by (simp add: relaxed_def)
  with srel have "\<forall>v. settled st v \<longrightarrow> relaxed g st v" by blast
  moreover have "\<forall>v. settled st v \<longrightarrow> (\<forall>q \<in> set (pq st). rd st v \<le> distance q)"
    using sle low by (blast intro: double_le_trans)
  ultimately show ?thesis using base by (simp add: dinv_def)
qed

subsection \<open>Popping the queue\<close>

lemma pop_fields:
  "rd (st\<lparr>pq := qs\<rparr>) v = rd st v"
  "pq (st\<lparr>pq := qs\<rparr>) = qs"
  "previous (st\<lparr>pq := qs\<rparr>) = previous st"
  "distances (st\<lparr>pq := qs\<rparr>) = distances st"
  by (simp_all add: rd_def)

lemma base_inv_pop:
  assumes "base_inv g s st"
  shows "base_inv g s (st\<lparr>pq := remove1 c (pq st)\<rparr>)"
proof -
  let ?st1 = "st\<lparr>pq := remove1 c (pq st)\<rparr>"
  have keep: "\<And>v. settled st v \<Longrightarrow> settled ?st1 v"
    by (auto simp: settled_def pop_fields dest: notin_set_remove1)
  have "entries_ok g ?st1"
    using assms by (auto simp: base_inv_def entries_ok_def pop_fields dest: notin_set_remove1)
  moreover have "realizable g s ?st1"
    using assms by (simp add: base_inv_def realizable_def pop_fields)
  moreover have "prev_ok ?st1"
    using assms keep unfolding base_inv_def prev_ok_def pop_fields by blast
  ultimately show ?thesis
    using assms by (simp add: base_inv_def pop_fields)
qed

lemma dinv_open:
  assumes inv: "dinv g s st" and pq: "pq st = q # qs" and cur: "cur = pq_top q qs"
    and fresh: "\<not> rd st (airportId cur) < distance cur"
  shows "rinv g s cur (st\<lparr>pq := remove1 cur (pq st)\<rparr>)"
    and "\<And>v. settled st v \<Longrightarrow> settled (st\<lparr>pq := remove1 cur (pq st)\<rparr>) v"
    and "\<not> settled st (airportId cur)"
proof -
  let ?st1 = "st\<lparr>pq := remove1 cur (pq st)\<rparr>"
  from inv have base: "base_inv g s st"
    and rel: "\<forall>v. settled st v \<longrightarrow> relaxed g st v"
    and low: "\<forall>v. settled st v \<longrightarrow> (\<forall>q \<in> set (pq st). rd st v \<le> distance q)"
    by (simp_all add: dinv_def)
  have cin: "cur \<in> set (pq st)" using pq_top_in [of q qs] by (simp add: pq cur)
  from base cin have c: "0 \<le> distance cur" "distance cur < PInf"
    "rd st (airportId cur) \<le> distance cur" "hasAirport g (airportId cur)"
    by (simp_all add: base_inv_def entries_ok_def)
  from base have pos: "\<forall>v. 0 \<le> rd st v" and ent: "entries_ok g st"
    by (simp_all add: base_inv_def)
  from fresh c(1) pos have "distance cur \<le> rd st (airportId cur)"
    by (simp add: double_not_less)
  with c(3) have rdu: "rd st (airportId cur) = distance cur" by (rule double_antisym)
  have cur_eq: "\<lparr>airportId = airportId cur, distance = distance cur\<rparr> = cur" by simp
  from base have "distinct (pq st)" by (simp add: base_inv_def)
  then have gone: "cur \<notin> set (remove1 cur (pq st))" by simp
  have su: "settled ?st1 (airportId cur)"
    using gone c(2) by (simp add: settled_def pop_fields rdu cur_eq)
  show keep: "\<And>v. settled st v \<Longrightarrow> settled ?st1 v"
    by (auto simp: settled_def pop_fields dest: notin_set_remove1)
  show nsu: "\<not> settled st (airportId cur)"
    using cin by (simp add: settled_def rdu cur_eq)
  have old: "\<And>v. settled ?st1 v \<Longrightarrow> v \<noteq> airportId cur \<Longrightarrow> settled st v"
  proof -
    fix v assume v: "settled ?st1 v" "v \<noteq> airportId cur"
    then have "\<lparr>airportId = v, distance = rd st v\<rparr> \<noteq> cur" by auto
    with v(1) show "settled st v"
      by (auto simp: settled_def pop_fields)
  qed
  have top: "\<forall>r \<in> set (pq ?st1). distance cur \<le> distance r"
  proof
    fix r assume "r \<in> set (pq ?st1)"
    then have "r \<in> set (pq st)" using set_remove1_subset [of cur "pq st"] by (auto simp: pop_fields)
    then have "r \<in> set (q # qs)" by (simp add: pq)
    moreover have "\<forall>r \<in> set (q # qs). 0 \<le> distance r"
      using ent by (simp add: entries_ok_def pq)
    ultimately show "distance cur \<le> distance r" unfolding cur by (intro pq_top_least)
  qed
  have sle: "\<forall>v. settled ?st1 v \<longrightarrow> rd ?st1 v \<le> distance cur"
  proof (intro allI impI)
    fix v assume v: "settled ?st1 v"
    show "rd ?st1 v \<le> distance cur"
    proof (cases "v = airportId cur")
      case True
      then show ?thesis using c(1) by (simp add: pop_fields rdu double_refl)
    next
      case False
      with v have "settled st v" by (rule old)
      with low cin show ?thesis by (simp add: pop_fields)
    qed
  qed
  have srel: "\<forall>v. settled ?st1 v \<and> v \<noteq> airportId cur \<longrightarrow> relaxed g ?st1 v"
  proof (intro allI impI)
    fix v assume "settled ?st1 v \<and> v \<noteq> airportId cur"
    then have "settled st v" using old by blast
    with rel have "relaxed g st v" by simp
    then show "relaxed g ?st1 v" by (simp add: relaxed_def pop_fields)
  qed
  show "rinv g s cur ?st1"
    unfolding rinv_def
    using base_inv_pop [OF base, of cur] su c top sle srel
    by (simp add: pop_fields rdu)
qed

lemma dinv_stale:
  assumes inv: "dinv g s st" and cin: "cur \<in> set (pq st)"
    and stale: "rd st (airportId cur) < distance cur"
  shows "dinv g s (st\<lparr>pq := remove1 cur (pq st)\<rparr>)"
    and "\<And>v. settled (st\<lparr>pq := remove1 cur (pq st)\<rparr>) v = settled st v"
proof -
  let ?st1 = "st\<lparr>pq := remove1 cur (pq st)\<rparr>"
  from inv have base: "base_inv g s st"
    and rel: "\<forall>v. settled st v \<longrightarrow> relaxed g st v"
    and low: "\<forall>v. settled st v \<longrightarrow> (\<forall>q \<in> set (pq st). rd st v \<le> distance q)"
    by (simp_all add: dinv_def)
  show same: "\<And>v. settled ?st1 v = settled st v"
  proof -
    fix v
    have "\<lparr>airportId = v, distance = rd st v\<rparr> \<noteq> cur"
      using stale by (auto simp: double_less_irrefl)
    then show "settled ?st1 v = settled st v"
      by (simp add: settled_def pop_fields)
  qed
  have "\<forall>v. settled ?st1 v \<longrightarrow> relaxed g ?st1 v"
    using rel by (simp add: same relaxed_def pop_fields)
  moreover have "\<forall>v. settled ?st1 v \<longrightarrow> (\<forall>q \<in> set (pq ?st1). rd ?st1 v \<le> distance q)"
    using low by (auto simp: same pop_fields dest: notin_set_remove1)
  ultimately show "dinv g s ?st1"
    using base_inv_pop [OF base, of cur] by (simp add: dinv_def)
qed

subsection \<open>The main loop\<close>

lemma main_loop_empty: "pq st = [] \<Longrightarrow> main_loop g t st = Some st"
  by (subst main_loop.simps) simp

lemma main_loop_break:
  "pq st = q # qs \<Longrightarrow> airportId (pq_top q qs) = t \<Longrightarrow>
   main_loop g t st = Some (st\<lparr>pq := remove1 (pq_top q qs) (pq st)\<rparr>)"
  by (subst main_loop.simps) (simp add: pq_pop_def)

lemma main_loop_continue:
  assumes "pq st = q # qs" "airportId (pq_top q qs) \<noteq> t"
    and "fmlookup (distances st) (airportId (pq_top q qs)) \<noteq> None"
  shows "main_loop g t st =
     (if rd st (airportId (pq_top q qs)) < distance (pq_top q qs)
      then main_loop g t (st\<lparr>pq := remove1 (pq_top q qs) (pq st)\<rparr>)
      else main_loop g t (foldl (relax (pq_top q qs)) (st\<lparr>pq := remove1 (pq_top q qs) (pq st)\<rparr>)
             (getRoutes g (airportId (pq_top q qs)))))"
  using assms
  by (subst main_loop.simps) (auto simp: pq_pop_def index_dist_def rd_def Let_def)

lemma finite_unsettled: "finite (unsettled g st)"
  by (simp add: unsettled_def)

lemma card_unsettled_less:
  assumes "\<And>v. settled st v \<Longrightarrow> settled st' v" "hasAirport g u" "settled st' u" "\<not> settled st u"
  shows "card (unsettled g st') < card (unsettled g st)"
proof (rule psubset_card_mono [OF finite_unsettled])
  have "u \<in> fset (fmdom (adjList g))"
    using assms(2) by (auto simp: hasAirport_def intro: fmdomI)
  then have "u \<in> unsettled g st" "u \<notin> unsettled g st'"
    using assms(3,4) by (simp_all add: unsettled_def)
  moreover have "unsettled g st' \<subseteq> unsettled g st"
    using assms(1) by (auto simp: unsettled_def)
  ultimately show "unsettled g st' \<subset> unsettled g st" by blast
qed

lemma loop_post_exit:
  assumes nn: "nonneg_weights g" and inv: "dinv g s st"
    and low: "\<forall>q \<in> set (pq st). rd st t \<le> distance q"
  shows "loop_post g s t (st\<lparr>pq := qs'\<rparr>)"
proof -
  have "\<forall>p. is_path g s p t \<longrightarrow> rd st t \<le> path_weight p"
    using lower_bound [OF nn inv low] by blast
  then show ?thesis
    using inv by (simp add: loop_post_def dinv_def base_inv_def realizable_def pop_fields)
qed

lemma main_loop_total:
  assumes nn: "nonneg_weights g"
  shows "dinv g s st \<Longrightarrow> \<exists>st'. main_loop g t st = Some st' \<and> loop_post g s t st'"
proof (induction st rule: wf_induct_rule [OF wf_measures [of "[\<lambda>st. card (unsettled g st), \<lambda>st. length (pq st)]"]])
  case (1 st)
  note inv = \<open>dinv g s st\<close>
  show ?case
  proof (cases "pq st")
    case Nil
    then have "loop_post g s t (st\<lparr>pq := []\<rparr>)"
      using loop_post_exit [OF nn inv, of t "[]"] by simp
    moreover have "st\<lparr>pq := []\<rparr> = st" using Nil by simp
    ultimately show ?thesis using main_loop_empty [OF Nil] by simp
  next
    case (Cons q qs)
    define cur where "cur = pq_top q qs"
    let ?st1 = "st\<lparr>pq := remove1 cur (pq st)\<rparr>"
    have cin: "cur \<in> set (pq st)" using pq_top_in [of q qs] by (simp add: Cons cur_def)
    from inv have base: "base_inv g s st" by (simp add: dinv_def)
    from base cin have c: "rd st (airportId cur) \<le> distance cur" "hasAirport g (airportId cur)"
      by (simp_all add: base_inv_def entries_ok_def)
    from base c(2) have present: "fmlookup (distances st) (airportId cur) \<noteq> None"
      by (simp add: base_inv_def)
    have "\<forall>r \<in> set (q # qs). 0 \<le> distance r"
      using base by (simp add: base_inv_def entries_ok_def Cons)
    then have least: "\<forall>r \<in> set (pq st). distance cur \<le> distance r"
      using pq_top_least [of q qs] by (simp add: Cons cur_def)
    show ?thesis
    proof (cases "airportId cur = t")
      case True
      have "\<forall>r \<in> set (pq st). rd st t \<le> distance r"
        using c(1) least True by (auto intro: double_le_trans)
      from loop_post_exit [OF nn inv this]
      show ?thesis using main_loop_break [OF Cons, of t g] True by (simp add: cur_def)
    next
      case False
      note unfold = main_loop_continue [OF Cons, of t g, folded cur_def, OF False present]
      show ?thesis
      proof (cases "rd st (airportId cur) < distance cur")
        case True
        note st = dinv_stale [OF inv cin True]
        have "length (pq ?st1) < length (pq st)"
          using cin by (simp add: length_remove1) (cases "pq st"; simp)
        moreover have "unsettled g ?st1 = unsettled g st"
          by (simp add: unsettled_def st(2))
        ultimately have "(?st1, st) \<in> measures [\<lambda>st. card (unsettled g st), \<lambda>st. length (pq st)]"
          by simp
        from "1.IH" [OF this st(1)] show ?thesis using unfold True by simp
      next
        case fresh: False
        let ?st2 = "foldl (relax cur) ?st1 (getRoutes g (airportId cur))"
        note op = dinv_open [OF inv Cons cur_def fresh]
        from rinv_foldl_relax [OF nn subset_refl op(1)]
        have r: "rinv g s cur ?st2" and same: "\<forall>v. settled ?st2 v = settled ?st1 v"
          and fin: "\<forall>e \<in> set (getRoutes g (airportId cur)).
                 rd ?st2 (destination e) \<le> distance cur + Edge.distance e"
          by blast+
        have inv2: "dinv g s ?st2" using r fin by (rule rinv_close)
        have "settled ?st1 (airportId cur)" using op(1) by (simp add: rinv_def)
        then have "settled ?st2 (airportId cur)" by (simp add: same)
        moreover have "\<And>v. settled st v \<Longrightarrow> settled ?st2 v" using op(2) by (simp add: same)
        ultimately have "card (unsettled g ?st2) < card (unsettled g st)"
          using c(2) op(3) by (intro card_unsettled_less) auto
        then have "(?st2, st) \<in> measures [\<lambda>st. card (unsettled g st), \<lambda>st. length (pq st)]"
          by simp
        from "1.IH" [OF this inv2] show ?thesis using unfold fresh by simp
      qed
    qed
  qed
qed

subsection \<open>The reconstruction loop and the whole query\<close>

lemma reconstruct_result:
  assumes wfp: "wf (prev_rel pm)" and keys: "\<forall>v. fmlookup pm v \<noteq> None \<longrightarrow> v \<in> K"
  shows "distinct acc \<Longrightarrow> \<forall>x \<in> set acc. (cur, x) \<in> (prev_rel pm)\<^sup>+ \<Longrightarrow> set acc \<subseteq> K \<Longrightarrow>
         \<exists>p. reconstruct pm cur acc = Some p \<and> distinct p \<and> set p \<subseteq> K"
proof (induction cur arbitrary: acc rule: wf_induct_rule [OF wfp])
  case (1 cur)
  show ?case
  proof (cases "fmlookup pm cur")
    case None
    then have "reconstruct pm cur acc = Some acc" by (subst reconstruct.simps) simp
    with "1.prems" show ?thesis by simp
  next
    case (Some u)
    show ?thesis
    proof (cases "cur = []")
      case True
      then have "reconstruct pm cur acc = Some acc" by (subst reconstruct.simps) simp
      with "1.prems" show ?thesis by simp
    next
      case False
      then have step: "reconstruct pm cur acc = reconstruct pm u (cur # acc)"
        using Some by (subst reconstruct.simps) simp
      have "wf ((prev_rel pm)\<^sup>+)" using wfp by (rule wf_trancl)
      then have "(cur, cur) \<notin> (prev_rel pm)\<^sup>+" by (rule wf_not_refl)
      with "1.prems"(2) have "cur \<notin> set acc" by blast
      with "1.prems"(1) have d: "distinct (cur # acc)" by simp
      from Some keys "1.prems"(3) have k: "set (cur # acc) \<subseteq> K" by simp
      show ?thesis
      proof (cases "u = []")
        case True
        then have "reconstruct pm u (cur # acc) = Some (cur # acc)"
          by (subst reconstruct.simps) simp
        with step d k show ?thesis by simp
      next
        case False
        with Some have r: "(u, cur) \<in> prev_rel pm" by (simp add: prev_rel_def)
        have "\<forall>x \<in> set (cur # acc). (u, x) \<in> (prev_rel pm)\<^sup>+"
          using r "1.prems"(2) by (auto intro: trancl_into_trancl2)
        from "1.IH" [OF r d this k] step show ?thesis by simp
      qed
    qed
  qed
qed

lemma findShortestPath_run:
  assumes nn: "nonneg_weights g" and s: "hasAirport g s" and t: "hasAirport g t"
  shows "\<exists>st p. loop_post g s t st \<and> distinct p \<and> set p \<subseteq> fset (fmdom (adjList g))
           \<and> findShortestPath g s t = Some \<lparr>path = p, totalDistance = rd st t\<rparr>"
proof -
  from main_loop_total [OF nn dinv_init [OF s], of t]
  obtain st where run: "main_loop g t (init_state g s) = Some st" and post: "loop_post g s t st"
    by blast
  from post have wfp: "wf (prev_rel (previous st))"
    and "\<forall>v. fmlookup (previous st) v \<noteq> None \<longrightarrow> hasAirport g v"
    by (simp_all add: loop_post_def)
  then have keys: "\<forall>v. fmlookup (previous st) v \<noteq> None \<longrightarrow> v \<in> fset (fmdom (adjList g))"
    by (auto simp: hasAirport_def intro: fmdomI)
  from reconstruct_result [OF wfp keys, of "[]" t]
  obtain p where p: "reconstruct (previous st) t [] = Some p"
    and dp: "distinct p" "set p \<subseteq> fset (fmdom (adjList g))" by auto
  from post t obtain d where d: "fmlookup (distances st) t = Some d"
    by (auto simp: loop_post_def)
  then have "rd st t = d" by (simp add: rd_def)
  with s t run p d have "findShortestPath g s t = Some \<lparr>path = p, totalDistance = rd st t\<rparr>"
    by (simp add: findShortestPath_def)
  with post dp show ?thesis by blast
qed

lemma findShortestPath_bounds:
  assumes nn: "nonneg_weights g" and s: "hasAirport g s" and t: "hasAirport g t"
  shows "\<exists>r. findShortestPath g s t = Some r
           \<and> 0 \<le> totalDistance r
           \<and> (\<forall>p. is_path g s p t \<longrightarrow> totalDistance r \<le> path_weight p)
           \<and> (totalDistance r < PInf \<longrightarrow> (\<exists>p. is_path g s p t \<and> path_weight p = totalDistance r))"
proof -
  from findShortestPath_run [OF assms] obtain st p
    where post: "loop_post g s t st"
      and res: "findShortestPath g s t = Some \<lparr>path = p, totalDistance = rd st t\<rparr>"
    by blast
  from post t have "\<forall>p. is_path g s p t \<longrightarrow> rd st t \<le> path_weight p"
    and "rd st t < PInf \<longrightarrow> (\<exists>p. is_path g s p t \<and> path_weight p = rd st t)"
    and "0 \<le> rd st t"
    by (simp_all add: loop_post_def realizable_def)
  with res show ?thesis by simp
qed

lemma rounding_graph_nonneg: "nonneg_weights rounding_graph"
  by (simp add: nonneg_weights_def graph_eval double_eval)

lemma rounding_graph_result:
  "findShortestPath rounding_graph ''S'' ''T''
     = Some \<lparr>path = [''S'', ''A'', ''T''], totalDistance = Fin 9007199254740992\<rparr>"
  by (simp add: graph_eval search_eval double_eval Fin_above_2_53 is_b64_2_54)

lemma rounding_graph_exact:
  "is_path rounding_graph u p ''T'' \<Longrightarrow>
     (u = ''S'' \<longrightarrow> 9007199254740993 \<le> exact_weight p)
     \<and> (u = ''A'' \<longrightarrow> 1 \<le> exact_weight p) \<and> 0 \<le> exact_weight p"
proof (induction p arbitrary: u)
  case Nil
  then show ?case by (simp add: exact_weight_def)
next
  case (Cons e p)
  from Cons.prems have e: "e \<in> set (getRoutes rounding_graph u)"
    and rest: "is_path rounding_graph (destination e) p ''T''" by simp_all
  note ih = Cons.IH [OF rest]
  from e consider "u = ''S''" "e = \<lparr>destination = ''A'', distance = Fin 9007199254740992\<rparr>"
    | "u = ''A''" "e = \<lparr>destination = ''S'', distance = Fin 9007199254740992\<rparr>"
    | "u = ''A''" "e = \<lparr>destination = ''T'', distance = Fin 1\<rparr>"
    | "u = ''T''" "e = \<lparr>destination = ''A'', distance = Fin 1\<rparr>"
    by (auto simp: graph_eval split: if_splits)
  then show ?case
  proof cases
    case 1
    with ih show ?thesis by (simp add: exact_weight_def double_eval)
  next
    case 2
    with ih show ?thesis by (simp add: exact_weight_def double_eval)
  next
    case 3
    with ih show ?thesis by (simp add: exact_weight_def double_eval)
  next
    case 4
    with ih show ?thesis by (simp add: exact_weight_def double_eval)
  qed
qed

text \<open>
  C1, as the code has it. In a graph without negative weights, for airports \<open>s\<close> and
  \<open>t\<close> of the graph joined by at least one path, \<open>findShortestPath\<close> returns, and the
  total distance it returns is the least \<open>path_weight\<close> of a path from \<open>s\<close> to \<open>t\<close>:
  some path has that weight, and no path weighs less. The weight of a path is the one
  the code computes: the weights of its edges added in order, starting from 0, each
  addition a double addition, which rounds and overflows to infinity.
\<close>

theorem findShortestPath_distance_minimal:
  assumes "nonneg_weights g" "hasAirport g s" "hasAirport g t" "is_path g s p0 t"
  shows "\<exists>r. findShortestPath g s t = Some r
           \<and> (\<exists>p. is_path g s p t \<and> path_weight p = totalDistance r)
           \<and> (\<forall>p. is_path g s p t \<longrightarrow> totalDistance r \<le> path_weight p)"
proof -
  from findShortestPath_bounds [OF assms(1-3)] obtain r
    where r: "findShortestPath g s t = Some r"
      and pos: "0 \<le> totalDistance r"
      and low: "\<forall>p. is_path g s p t \<longrightarrow> totalDistance r \<le> path_weight p"
      and ex: "totalDistance r < PInf \<longrightarrow> (\<exists>p. is_path g s p t \<and> path_weight p = totalDistance r)"
    by blast
  have "\<exists>p. is_path g s p t \<and> path_weight p = totalDistance r"
  proof (cases "totalDistance r < PInf")
    case True
    with ex show ?thesis by simp
  next
    case False
    with pos have inf: "totalDistance r = PInf" by (simp add: not_less_PInf)
    with low assms(4) have "path_weight p0 = PInf" by (auto simp: PInf_le)
    with assms(4) inf show ?thesis by auto
  qed
  with r low show ?thesis by blast
qed

theorem findShortestPath_distance_minimal_witness:
  "nonneg_weights main_graph \<and> hasAirport main_graph ''JFK'' \<and> hasAirport main_graph ''DFW''
   \<and> is_path main_graph ''JFK''
        [\<lparr>destination = ''ORD'', distance = Fin 800\<rparr>,
         \<lparr>destination = ''DFW'', distance = Fin 1650\<rparr>] ''DFW''
   \<and> (\<exists>r. findShortestPath main_graph ''JFK'' ''DFW'' = Some r
          \<and> (\<exists>p. is_path main_graph ''JFK'' p ''DFW'' \<and> path_weight p = totalDistance r)
          \<and> (\<forall>p. is_path main_graph ''JFK'' p ''DFW'' \<longrightarrow> totalDistance r \<le> path_weight p))"
proof -
  have h1: "nonneg_weights main_graph"
    by (simp add: nonneg_weights_def graph_eval double_eval)
  have h2: "hasAirport main_graph ''JFK''" by (simp add: graph_eval)
  have h3: "hasAirport main_graph ''DFW''" by (simp add: graph_eval)
  have h4: "is_path main_graph ''JFK''
        [\<lparr>destination = ''ORD'', distance = Fin 800\<rparr>,
         \<lparr>destination = ''DFW'', distance = Fin 1650\<rparr>] ''DFW''" by (simp add: graph_eval)
  from findShortestPath_distance_minimal [OF h1 h2 h3 h4] h1 h2 h3 h4
  show ?thesis by blast
qed

text \<open>
  C1 as stated, with the sum of the weights taken exactly, fails. In the graph with the
  routes S--A of weight \<open>2 ^ 53\<close> and A--T of weight 1 no weight is negative, S and T
  are airports and a path joins them; the total distance returned is \<open>2 ^ 53\<close>, since
  the double sum of \<open>2 ^ 53\<close> and 1 is \<open>2 ^ 53\<close>, while every path from S to T has an
  exact weight of at least \<open>2 ^ 53 + 1\<close>.
\<close>

theorem findShortestPath_distance_minimal_counterexample:
  "nonneg_weights rounding_graph
   \<and> hasAirport rounding_graph ''S'' \<and> hasAirport rounding_graph ''T''
   \<and> is_path rounding_graph ''S''
        [\<lparr>destination = ''A'', distance = Fin 9007199254740992\<rparr>,
         \<lparr>destination = ''T'', distance = Fin 1\<rparr>] ''T''
   \<and> findShortestPath rounding_graph ''S'' ''T''
        = Some \<lparr>path = [''S'', ''A'', ''T''], totalDistance = Fin 9007199254740992\<rparr>
   \<and> to_real (Fin 9007199254740992) = 9007199254740992
   \<and> \<not> (\<exists>p. is_path rounding_graph ''S'' p ''T'' \<and> exact_weight p < 9007199254740993)"
proof -
  have "\<not> (\<exists>p. is_path rounding_graph ''S'' p ''T'' \<and> exact_weight p < 9007199254740993)"
    using rounding_graph_exact [of "''S''"] by fastforce
  moreover have "is_path rounding_graph ''S''
        [\<lparr>destination = ''A'', distance = Fin 9007199254740992\<rparr>,
         \<lparr>destination = ''T'', distance = Fin 1\<rparr>] ''T''" by (simp add: graph_eval)
  moreover have "hasAirport rounding_graph ''S''" "hasAirport rounding_graph ''T''"
    by (simp_all add: graph_eval)
  moreover have "to_real (Fin 9007199254740992) = 9007199254740992"
    by (simp add: double_eval)
  ultimately show ?thesis using rounding_graph_nonneg rounding_graph_result by simp
qed

text \<open>
  C10. In a graph without negative weights (a graph is a finite map, so it is finite),
  \<open>findShortestPath\<close> returns for every source and target: the main loop and the
  reconstruction loop both end. The reconstruction loop visits no airport twice, so the
  path it builds is no longer than the number of airports. An entry is pushed on the
  queue only by a relaxation that makes the distance of its airport strictly smaller.
\<close>

theorem findShortestPath_terminates:
  assumes "nonneg_weights g"
  shows "(\<exists>r. findShortestPath g s t = Some r
            \<and> length (path r) \<le> card (fset (fmdom (adjList g))))
    \<and> (\<forall>cur st e. pq (relax cur st e) \<noteq> pq st \<longrightarrow>
           rd (relax cur st e) (destination e) < rd st (destination e))"
proof
  show "\<exists>r. findShortestPath g s t = Some r
          \<and> length (path r) \<le> card (fset (fmdom (adjList g)))"
  proof (cases "hasAirport g s \<and> hasAirport g t")
    case True
    with findShortestPath_run [OF assms, of s t] obtain st p
      where dp: "distinct p" "set p \<subseteq> fset (fmdom (adjList g))"
        and res: "findShortestPath g s t = Some \<lparr>path = p, totalDistance = rd st t\<rparr>"
      by blast
    have "length p = card (set p)" using dp(1) by (simp add: distinct_card)
    also have "\<dots> \<le> card (fset (fmdom (adjList g)))"
      using dp(2) by (intro card_mono) simp_all
    finally show ?thesis using res by simp
  next
    case False
    then show ?thesis by (auto simp: findShortestPath_def)
  qed
  show "\<forall>cur st e. pq (relax cur st e) \<noteq> pq st \<longrightarrow>
           rd (relax cur st e) (destination e) < rd st (destination e)"
  proof (intro allI impI)
    fix cur st e assume ne: "pq (relax cur st e) \<noteq> pq st"
    then have lt: "distance cur + Edge.distance e < rd st (destination e)"
      using relax_keep(2) [of cur e st] by blast
    from relax_update(1) [OF lt, of "destination e"] lt
    show "rd (relax cur st e) (destination e) < rd st (destination e)" by simp
  qed
qed

theorem findShortestPath_terminates_witness:
  "nonneg_weights main_graph
   \<and> (\<exists>r. findShortestPath main_graph ''DFW'' ''JFK'' = Some r
          \<and> length (path r) \<le> card (fset (fmdom (adjList main_graph))))"
proof -
  have h: "nonneg_weights main_graph"
    by (simp add: nonneg_weights_def graph_eval double_eval)
  from findShortestPath_terminates [OF h, of "''DFW''" "''JFK''"] h show ?thesis by blast
qed

section \<open>A single route\<close>

lemma no_routes_getRoutes: "no_routes g \<Longrightarrow> getRoutes g k = []"
proof (cases "hasAirport g k")
  case True
  assume "no_routes g"
  moreover from True have "k \<in> fset (fmdom (adjList g))"
    by (auto simp: hasAirport_def intro: fmdomI)
  ultimately show ?thesis unfolding no_routes_def by blast
next
  case False
  then show ?thesis by (rule getRoutes_no_airport)
qed

lemma single_edge_distance:
  assumes nn: "nonneg_weights G" and x: "hasAirport G x" and y: "hasAirport G y"
    and ne: "x \<noteq> y" and only: "getRoutes G x = [\<lparr>destination = y, distance = w\<rparr>]"
  shows "map_option totalDistance (findShortestPath G x y) = Some w"
proof -
  let ?e = "\<lparr>destination = y, distance = w\<rparr>"
  from findShortestPath_bounds [OF nn x y] obtain r
    where r: "findShortestPath G x y = Some r"
      and pos: "0 \<le> totalDistance r"
      and low: "\<forall>p. is_path G x p y \<longrightarrow> totalDistance r \<le> path_weight p"
      and ex: "totalDistance r < PInf \<longrightarrow> (\<exists>p. is_path G x p y \<and> path_weight p = totalDistance r)"
    by blast
  have "?e \<in> set (getRoutes G x)" by (simp add: only)
  with nn have w0: "0 \<le> Edge.distance ?e" by (rule edge_nonneg)
  then have w0: "0 \<le> w" by simp
  have direct: "is_path G x [?e] y" by (simp add: only)
  have "path_weight [?e] = w" by (simp add: path_weight_def weight_from_simps zero_plus)
  with low direct have up: "totalDistance r \<le> w" by fastforce
  have least: "w \<le> path_weight p" if p: "is_path G x p y" for p
  proof (cases p)
    case Nil
    with p ne show ?thesis by simp
  next
    case (Cons e p')
    with p have e: "e = ?e" and rest: "is_path G y p' y" by (auto simp: only)
    have "w \<le> weight_from w p'" using nn rest w0 by (rule weight_from_increasing)
    then show ?thesis by (simp add: Cons e path_weight_def weight_from_simps zero_plus)
  qed
  have "totalDistance r = w"
  proof (cases "totalDistance r < PInf")
    case True
    with ex obtain p where "is_path G x p y" "path_weight p = totalDistance r" by blast
    with least [of p] up show ?thesis by (simp add: double_antisym)
  next
    case False
    with pos have "totalDistance r = PInf" by (simp add: not_less_PInf)
    with up show ?thesis by (simp add: PInf_le)
  qed
  with r show ?thesis by simp
qed

lemma self_distance:
  assumes "hasAirport g s"
  shows "map_option totalDistance (findShortestPath g s s) = Some 0"
proof -
  have "\<exists>p. reconstruct (fmmap (\<lambda>_. []) (adjList g)) s [] = Some p"
  proof (cases "s = []")
    case True
    then show ?thesis by (subst reconstruct.simps) simp
  next
    case False
    with assms show ?thesis using reconstruct_source by blast
  qed
  then obtain p where "reconstruct (fmmap (\<lambda>_. []) (adjList g)) s [] = Some p" by blast
  with assms show ?thesis
    by (simp add: findShortestPath_def main_loop_source_is_target) (simp add: init_state_def)
qed

lemma single_route_graph:
  assumes "no_routes g" "0 \<le> w"
  shows "nonneg_weights (addRoute g a b w)"
  using assms
  by (auto simp: nonneg_weights_def getRoutes_addRoute no_routes_getRoutes split: if_splits)

text \<open>
  C6, as the code has it. \<open>addRoute g a b w\<close> appends exactly the edge to \<open>b\<close> of
  weight \<open>w\<close> to the edge list of \<open>a\<close> and exactly the edge to \<open>a\<close> of weight \<open>w\<close>
  to the edge list of \<open>b\<close>, and changes no other edge list. When the graph had no
  route before, \<open>w\<close> is not negative, and \<open>a\<close> and \<open>b\<close> differ or \<open>w\<close> is 0, the total
  distance returned from \<open>a\<close> to \<open>b\<close> is \<open>w\<close>, and so is the one from \<open>b\<close> to \<open>a\<close>.
\<close>

theorem addRoute_reciprocal_edges:
  "(\<forall>k. getRoutes (addRoute g a b w) k =
         getRoutes g k @ (if k = a then [\<lparr>destination = b, distance = w\<rparr>] else [])
                       @ (if k = b then [\<lparr>destination = a, distance = w\<rparr>] else []))
   \<and> (no_routes g \<and> 0 \<le> w \<and> (a \<noteq> b \<or> w = 0) \<longrightarrow>
        map_option totalDistance (findShortestPath (addRoute g a b w) a b) = Some w
        \<and> map_option totalDistance (findShortestPath (addRoute g a b w) b a) = Some w)"
proof (intro conjI allI impI)
  fix k
  show "getRoutes (addRoute g a b w) k =
         getRoutes g k @ (if k = a then [\<lparr>destination = b, distance = w\<rparr>] else [])
                       @ (if k = b then [\<lparr>destination = a, distance = w\<rparr>] else [])"
    by (rule getRoutes_addRoute)
next
  assume h: "no_routes g \<and> 0 \<le> w \<and> (a \<noteq> b \<or> w = 0)"
  then have nn: "nonneg_weights (addRoute g a b w)" by (simp add: single_route_graph)
  have ab: "hasAirport (addRoute g a b w) a" "hasAirport (addRoute g a b w) b"
    by (simp_all add: hasAirport_addRoute)
  from h have nr: "no_routes g" by simp
  have "map_option totalDistance (findShortestPath (addRoute g a b w) a b) = Some w
        \<and> map_option totalDistance (findShortestPath (addRoute g a b w) b a) = Some w"
  proof (cases "a = b")
    case True
    with h have "w = 0" by simp
    with True ab(1) show ?thesis by (simp add: self_distance)
  next
    case False
    then have ne: "a \<noteq> b" "b \<noteq> a" by simp_all
    have ra: "getRoutes (addRoute g a b w) a = [\<lparr>destination = b, distance = w\<rparr>]"
      and rb: "getRoutes (addRoute g a b w) b = [\<lparr>destination = a, distance = w\<rparr>]"
      using ne nr by (simp_all add: getRoutes_addRoute no_routes_getRoutes)
    have "map_option totalDistance (findShortestPath (addRoute g a b w) a b) = Some w"
      using nn ab ne(1) ra by (rule single_edge_distance)
    moreover have "map_option totalDistance (findShortestPath (addRoute g a b w) b a) = Some w"
      using nn ab(2,1) ne(2) rb by (rule single_edge_distance)
    ultimately show ?thesis by simp
  qed
  then show "map_option totalDistance (findShortestPath (addRoute g a b w) a b) = Some w"
    and "map_option totalDistance (findShortestPath (addRoute g a b w) b a) = Some w"
    by simp_all
qed

theorem addRoute_reciprocal_edges_witness:
  "no_routes empty_graph \<and> (0::double) \<le> Fin 800 \<and> ''JFK'' \<noteq> ''ORD''
   \<and> map_option totalDistance
        (findShortestPath (addRoute empty_graph ''JFK'' ''ORD'' (Fin 800)) ''JFK'' ''ORD'') = Some (Fin 800)
   \<and> map_option totalDistance
        (findShortestPath (addRoute empty_graph ''JFK'' ''ORD'' (Fin 800)) ''ORD'' ''JFK'') = Some (Fin 800)
   \<and> getRoutes (addRoute empty_graph ''JFK'' ''ORD'' (Fin 800)) ''ORD''
        = getRoutes empty_graph ''ORD'' @ [\<lparr>destination = ''JFK'', distance = Fin 800\<rparr>]"
proof -
  have h1: "no_routes empty_graph" by (simp add: no_routes_def graph_eval)
  have h2: "(0::double) \<le> Fin 800" by (simp add: double_eval)
  have h3: "''JFK'' \<noteq> ''ORD''" by simp
  from addRoute_reciprocal_edges [of empty_graph "''JFK''" "''ORD''" "Fin 800"] h1 h2 h3
  show ?thesis by simp
qed

text \<open>
  C6 as stated fails for a route of positive weight from an airport to itself: the
  graph holds only the route (A, A, 5), and the total distance returned from A to A is
  0, not 5.
\<close>

theorem addRoute_reciprocal_edges_counterexample:
  "no_routes empty_graph \<and> (0::double) \<le> Fin 5
   \<and> map_option totalDistance
        (findShortestPath (addRoute empty_graph ''A'' ''A'' (Fin 5)) ''A'' ''A'') = Some (Fin 0)
   \<and> map_option totalDistance
        (findShortestPath (addRoute empty_graph ''A'' ''A'' (Fin 5)) ''A'' ''A'') \<noteq> Some (Fin 5)"
  by (simp add: no_routes_def graph_eval search_eval double_eval)

section \<open>An unreachable target\<close>

lemma path_enters_target:
  "is_path g u p t \<Longrightarrow> u \<noteq> t \<Longrightarrow> \<exists>k e. e \<in> set (getRoutes g k) \<and> destination e = t"
proof (induction p arbitrary: u)
  case Nil
  then show ?case by simp
next
  case (Cons e p)
  show ?case
  proof (cases "destination e = t")
    case True
    with Cons.prems show ?thesis by auto
  next
    case False
    with Cons show ?thesis by auto
  qed
qed

lemma getRoutes_addAirport: "getRoutes (addAirport g k) k' = getRoutes g k'"
  by (simp add: getRoutes_def addAirport_def)

lemma getRoutes_empty_graph: "getRoutes empty_graph k = []"
  by (simp add: getRoutes_def empty_graph_def)

lemma main_graph_lax_no_path: "\<not> is_path main_graph_lax ''JFK'' p ''LAX''"
proof
  assume "is_path main_graph_lax ''JFK'' p ''LAX''"
  then obtain k e where "e \<in> set (getRoutes main_graph_lax k)" "destination e = ''LAX''"
    using path_enters_target by fastforce
  then show False
    by (auto simp: main_graph_lax_def main_graph_def getRoutes_addRoute getRoutes_addAirport
        getRoutes_empty_graph split: if_splits)
qed

text \<open>
  C2 at a concrete input. The graph of \<open>main\<close> with the further airport LAX has no
  negative weight, JFK and LAX are distinct airports of it and no path leads from JFK
  to LAX; \<open>findShortestPath\<close> returns the path holding LAX alone and the total
  distance infinity, where the claim asks for the empty path and 0.
\<close>

theorem findShortestPath_unreachable:
  "nonneg_weights main_graph_lax
   \<and> hasAirport main_graph_lax ''JFK'' \<and> hasAirport main_graph_lax ''LAX''
   \<and> (\<forall>p. \<not> is_path main_graph_lax ''JFK'' p ''LAX'')
   \<and> findShortestPath main_graph_lax ''JFK'' ''LAX''
       = Some \<lparr>path = [''LAX''], totalDistance = PInf\<rparr>"
proof -
  have "nonneg_weights main_graph_lax"
    by (simp add: nonneg_weights_def graph_eval double_eval)
  moreover have "hasAirport main_graph_lax ''JFK''" by (simp add: graph_eval)
  moreover have "hasAirport main_graph_lax ''LAX''" by (simp add: graph_eval)
  moreover have "findShortestPath main_graph_lax ''JFK'' ''LAX''
       = Some \<lparr>path = [''LAX''], totalDistance = PInf\<rparr>"
    by (simp add: graph_eval search_eval double_eval)
  ultimately show ?thesis using main_graph_lax_no_path by blast
qed

theorem findShortestPath_unreachable_witness:
  "map_option path (findShortestPath main_graph_lax ''JFK'' ''LAX'') = Some [''LAX'']
   \<and> map_option totalDistance (findShortestPath main_graph_lax ''JFK'' ''LAX'') = Some PInf"
  using findShortestPath_unreachable by simp

end
